theory Spec2Isabelle
  imports Main
begin

section \<open>break.ts: combining two break values\<close>

text \<open>
  A break value is \<^verbatim>\<open>string | null\<close> in the source; \<open>None\<close> stands for \<^verbatim>\<open>null\<close>.
  The three tables of break.ts are object literals whose own keys all carry \<^verbatim>\<open>true\<close>.
  A lookup \<^verbatim>\<open>!!table[value]\<close> finds an own key, and it also finds every property that an
  object literal inherits from \<open>Object.prototype\<close>; each of those is a function or an
  object and so counts as true. With \<^verbatim>\<open>null\<close> the key read is \<^verbatim>\<open>"null"\<close>, which is
  neither.
\<close>

definition objectPrototypeNames :: "string list" where
  "objectPrototypeNames =
     [''constructor'', ''__defineGetter__'', ''__defineSetter__'', ''hasOwnProperty'',
      ''__lookupGetter__'', ''__lookupSetter__'', ''isPrototypeOf'',
      ''propertyIsEnumerable'', ''toString'', ''valueOf'', ''__proto__'',
      ''toLocaleString'']"

definition truthy_entry :: "string list \<Rightarrow> string option \<Rightarrow> bool" where
  "truthy_entry own_keys v =
     (case v of
        None \<Rightarrow> False
      | Some s \<Rightarrow> s \<in> set own_keys \<or> s \<in> set objectPrototypeNames)"

definition forcedBreakValues :: "string list" where
  "forcedBreakValues =
     [''page'', ''left'', ''right'', ''recto'', ''verso'', ''column'', ''region'']"

definition isForcedBreakValue :: "string option \<Rightarrow> bool" where
  "isForcedBreakValue v = truthy_entry forcedBreakValues v"

definition spreadBreakValues :: "string list" where
  "spreadBreakValues = [''left'', ''right'', ''recto'', ''verso'']"

definition isSpreadBreakValue :: "string option \<Rightarrow> bool" where
  "isSpreadBreakValue v = truthy_entry spreadBreakValues v"

definition avoidBreakValues :: "string list" where
  "avoidBreakValues = [''avoid'', ''avoid-page'', ''avoid-column'', ''avoid-region'']"

definition isAvoidBreakValue :: "string option \<Rightarrow> bool" where
  "isAvoidBreakValue v = truthy_entry avoidBreakValues v"

text \<open>The test \<^verbatim>\<open>!first\<close> of the source holds for \<^verbatim>\<open>null\<close> and for the empty string.\<close>

definition falsy :: "string option \<Rightarrow> bool" where
  "falsy v = (case v of None \<Rightarrow> True | Some s \<Rightarrow> s = [])"

definition resolveEffectiveBreakValue :: "string option \<Rightarrow> string option \<Rightarrow> string option" where
  "resolveEffectiveBreakValue first second =
     (if falsy first then second
      else if falsy second then first
      else if isSpreadBreakValue second then second
      else if isSpreadBreakValue first then first
      else
        (let firstIsForcedBreakValue = isForcedBreakValue first;
             secondIsForcedBreakValue = isForcedBreakValue second
         in if firstIsForcedBreakValue \<and> secondIsForcedBreakValue then
              (if second = Some ''column'' then first
               else if second = Some ''region'' then
                 (if first = Some ''column'' then second else first)
               else second)
            else if secondIsForcedBreakValue then second
            else if firstIsForcedBreakValue then first
            else if isAvoidBreakValue second then second
            else if isAvoidBreakValue first then first
            else second))"

subsection \<open>The combination rule as the specification words it\<close>

definition break_value_domain :: "string option list" where
  "break_value_domain =
     [None, Some ''avoid'', Some ''avoid-page'', Some ''avoid-column'', Some ''avoid-region'',
      Some ''page'', Some ''left'', Some ''right'', Some ''recto'', Some ''verso'',
      Some ''column'', Some ''region'']"

definition spec_spread_class :: "string option \<Rightarrow> bool" where
  "spec_spread_class v =
     (v = Some ''left'' \<or> v = Some ''right'' \<or> v = Some ''recto'' \<or> v = Some ''verso'')"

definition spec_forced_class :: "string option \<Rightarrow> bool" where
  "spec_forced_class v =
     (v = Some ''page'' \<or> spec_spread_class v \<or> v = Some ''column'' \<or> v = Some ''region'')"

definition spec_avoid_class :: "string option \<Rightarrow> bool" where
  "spec_avoid_class v =
     (v = Some ''avoid'' \<or> v = Some ''avoid-page'' \<or> v = Some ''avoid-column''
      \<or> v = Some ''avoid-region'')"

text \<open>
  The five rules in priority order, rule 2 as the specification states it: when both
  values are forced and \<open>second\<close> is \<open>region\<close>, \<open>second\<close> is returned unless \<open>first\<close> is
  \<open>column\<close>, in which case \<open>first\<close> is returned.
\<close>

definition spec_resolve :: "string option \<Rightarrow> string option \<Rightarrow> string option" where
  "spec_resolve first second =
     (if spec_spread_class first \<or> spec_spread_class second then
        (if spec_spread_class second then second else first)
      else if spec_forced_class first \<and> spec_forced_class second then
        (if second = Some ''column'' then first
         else if second = Some ''region'' then
           (if first = Some ''column'' then first else second)
         else second)
      else if spec_forced_class first \<noteq> spec_forced_class second then
        (if spec_forced_class first then first else second)
      else if spec_avoid_class first \<or> spec_avoid_class second then
        (if spec_avoid_class second then second else first)
      else (if second \<noteq> None then second else first))"

text \<open>
  The same rules with the two outcomes of the \<open>region\<close> case exchanged: \<open>second\<close>
  (\<open>region\<close>) is returned only when \<open>first\<close> is \<open>column\<close>, otherwise \<open>first\<close>.
\<close>

definition spec_resolve_region_weaker :: "string option \<Rightarrow> string option \<Rightarrow> string option" where
  "spec_resolve_region_weaker first second =
     (if spec_spread_class first \<or> spec_spread_class second then
        (if spec_spread_class second then second else first)
      else if spec_forced_class first \<and> spec_forced_class second then
        (if second = Some ''column'' then first
         else if second = Some ''region'' then
           (if first = Some ''column'' then second else first)
         else second)
      else if spec_forced_class first \<noteq> spec_forced_class second then
        (if spec_forced_class first then first else second)
      else if spec_avoid_class first \<or> spec_avoid_class second then
        (if spec_avoid_class second then second else first)
      else (if second \<noteq> None then second else first))"

section \<open>css-styler.ts: SlipRange and SlipMap\<close>

text \<open>
  Offsets are JavaScript numbers holding integers ("Maps all ints in a range"); they are
  modelled as \<open>int\<close>. The class \<open>SlipMap\<close> has the single field \<open>map\<close>, an array of
  ranges in the order they were pushed; a map state is that array.
\<close>

record SlipRange =
  endStuckFixed :: int
  endFixed :: int
  endSlipped :: int

definition new_SlipRange :: "int \<Rightarrow> int \<Rightarrow> int \<Rightarrow> SlipRange" where
  "new_SlipRange a e s = \<lparr>endStuckFixed = a, endFixed = e, endSlipped = s\<rparr>"

type_synonym SlipMap = "SlipRange list"

definition new_SlipMap :: SlipMap where
  "new_SlipMap = []"

definition getMaxFixed :: "SlipMap \<Rightarrow> int" where
  "getMaxFixed m = (if length m = 0 then 0 else endFixed (m ! (length m - 1)))"

definition getMaxSlipped :: "SlipMap \<Rightarrow> int" where
  "getMaxSlipped m = (if length m = 0 then 0 else endSlipped (m ! (length m - 1)))"

text \<open>
  \<open>addStuckRange\<close> either pushes a range or assigns the three fields of the last range
  in place; \<open>m[length m - 1 := r]\<close> is that assignment.
\<close>

definition addStuckRange :: "int \<Rightarrow> SlipMap \<Rightarrow> SlipMap" where
  "addStuckRange endFixed' m =
     (if length m = 0 then m @ [new_SlipRange endFixed' endFixed' endFixed']
      else
        (let range = m ! (length m - 1);
             endSlipped' = endSlipped range + endFixed' - endFixed range
         in if endFixed range = endStuckFixed range then
              m[length m - 1 :=
                  range\<lparr>endFixed := endFixed', endStuckFixed := endFixed',
                         endSlipped := endSlipped'\<rparr>]
            else m @ [new_SlipRange endFixed' endFixed' endSlipped']))"

definition addSlippedRange :: "int \<Rightarrow> SlipMap \<Rightarrow> SlipMap" where
  "addSlippedRange endFixed' m =
     (if length m = 0 then m @ [new_SlipRange endFixed' 0 0]
      else m[length m - 1 := (m ! (length m - 1))\<lparr>endFixed := endFixed'\<rparr>])"

text \<open>
  Modelled from the spec: \<open>Base.binarySearch\<close> of base.ts, of which css-styler.ts has
  only the two calls. The specification words both as "binary-search the first range
  with ...": the interval \<open>[0, high)\<close> is bisected for the lowest index at which the
  predicate holds, and \<open>high\<close> is the answer when no probed index satisfies it. The
  predicate is only ever applied to indices below \<open>high\<close>.
\<close>

function bisect :: "nat \<Rightarrow> nat \<Rightarrow> (nat \<Rightarrow> bool) \<Rightarrow> nat" where
  "bisect l h fn =
     (if h \<le> l then l
      else (let m = (l + h) div 2 in if fn m then bisect l m fn else bisect (m + 1) h fn))"
  by pat_completeness auto
termination
  by (relation "measure (\<lambda>(l, h, fn). h - l)") auto

declare bisect.simps [simp del]

definition binarySearch :: "nat \<Rightarrow> (nat \<Rightarrow> bool) \<Rightarrow> nat" where
  "binarySearch high fn = bisect 0 high fn"

text \<open>
  Both lookups read \<open>this.map[index]\<close> and then a field of it. At \<open>index = length\<close>
  the array read yields \<^verbatim>\<open>undefined\<close> and the field read throws a TypeError: the
  result \<open>None\<close>.
\<close>

definition slippedByFixed :: "SlipMap \<Rightarrow> int \<Rightarrow> int option" where
  "slippedByFixed m fixed =
     (let index = binarySearch (length m) (\<lambda>index. fixed \<le> endFixed (m ! index))
      in if index < length m then
           (let range = m ! index
            in Some (endSlipped range - max 0 (endStuckFixed range - fixed)))
         else None)"

definition fixedBySlipped :: "SlipMap \<Rightarrow> int \<Rightarrow> int option" where
  "fixedBySlipped m slipped =
     (let index = binarySearch (length m) (\<lambda>index. slipped \<le> endSlipped (m ! index))
      in if index < length m then
           (let range = m ! index
            in Some (endStuckFixed range - (endSlipped range - slipped)))
         else None)"

subsection \<open>Sequences of calls on a fresh map\<close>

datatype call = AddStuckRange int | AddSlippedRange int

fun arg :: "call \<Rightarrow> int" where
  "arg (AddStuckRange f) = f"
| "arg (AddSlippedRange f) = f"

fun apply_call :: "SlipMap \<Rightarrow> call \<Rightarrow> SlipMap" where
  "apply_call m (AddStuckRange f) = addStuckRange f m"
| "apply_call m (AddSlippedRange f) = addSlippedRange f m"

definition run_calls :: "SlipMap \<Rightarrow> call list \<Rightarrow> SlipMap" where
  "run_calls m cs = foldl apply_call m cs"

text \<open>
  The constructor of \<open>Styler\<close> creates the offset map and registers the root offset as
  primary content before anything else touches the map.
\<close>

definition Styler_constructor_offsetMap :: "int \<Rightarrow> SlipMap" where
  "Styler_constructor_offsetMap rootOffset = addStuckRange rootOffset new_SlipMap"

subsection \<open>Conditions on call sequences and shapes of map states\<close>

text \<open>
  \<open>follows c c'\<close> relates a call to the next one: arguments do not decrease, and an
  \<open>addStuckRange\<close> directly after an \<open>addSlippedRange\<close> has a strictly larger argument.
  \<open>first_call_ok\<close> rules out only a sequence that opens with \<open>addSlippedRange\<close> of a
  negative number; offsets are positions in a document and are never negative.
\<close>

fun follows :: "call \<Rightarrow> call \<Rightarrow> bool" where
  "follows (AddSlippedRange g) (AddStuckRange f) = (g < f)"
| "follows c c' = (arg c \<le> arg c')"

fun first_call_ok :: "call list \<Rightarrow> bool" where
  "first_call_ok (AddSlippedRange f # cs) = (0 \<le> f)"
| "first_call_ok cs = True"

fun is_stuck :: "call \<Rightarrow> bool" where
  "is_stuck (AddStuckRange f) = True"
| "is_stuck (AddSlippedRange f) = False"

text \<open>
  The shape the specification asks of a map: within each range the stuck end does not
  exceed the fixed end, and each of the three fields is non-decreasing along the array.
\<close>

definition well_ordered :: "SlipMap \<Rightarrow> bool" where
  "well_ordered m =
     ((\<forall>r \<in> set m. endStuckFixed r \<le> endFixed r)
      \<and> sorted (map endStuckFixed m) \<and> sorted (map endFixed m)
      \<and> sorted (map endSlipped m))"

text \<open>
  Two consecutive ranges are \<open>linked\<close> when the later one starts its primary run where
  the earlier one ends, in both coordinate systems.
\<close>

definition linked :: "SlipRange \<Rightarrow> SlipRange \<Rightarrow> bool" where
  "linked r r' =
     (endSlipped r' - endStuckFixed r' = endSlipped r - endFixed r
      \<and> endFixed r \<le> endStuckFixed r')"

definition monotone_map :: "SlipMap \<Rightarrow> bool" where
  "monotone_map m =
     (sorted (map endFixed m) \<and> sorted (map endSlipped m) \<and> successively linked m)"

definition gapped :: "SlipMap \<Rightarrow> bool" where
  "gapped m = successively (\<lambda>r r'. endFixed r < endStuckFixed r') m"

text \<open>
  An offset is \<open>covered\<close> when it lies in the primary part of the first range whose
  fixed end reaches it.
\<close>

definition covered :: "SlipMap \<Rightarrow> int \<Rightarrow> bool" where
  "covered m f =
     (\<exists>i<length m. f \<le> endStuckFixed (m ! i) \<and> endStuckFixed (m ! i) \<le> endFixed (m ! i)
        \<and> (\<forall>j<i. endFixed (m ! j) < f))"

definition after_call :: "SlipMap \<Rightarrow> call \<Rightarrow> bool" where
  "after_call m c =
     (monotone_map m \<and> gapped m \<and> m \<noteq> [] \<and> getMaxFixed m \<le> arg c
      \<and> (is_stuck c \<longrightarrow> endStuckFixed (last m) = endFixed (last m)))"

section \<open>display.ts: block classification\<close>

text \<open>
  A CSS value (\<open>Css.Val\<close>) is either an interned identifier, compared by identity with
  the constants \<open>Css.ident.none\<close>, \<open>Css.ident.block\<close>, ..., or some other value, of which
  only its \<open>toString()\<close> text matters here. A value that may be \<^verbatim>\<open>null\<close> is an option.
\<close>

datatype css_val = Ident string | OtherVal string

fun css_toString :: "css_val \<Rightarrow> string" where
  "css_toString (Ident s) = s"
| "css_toString (OtherVal s) = s"

text \<open>
  Reading a property of \<^verbatim>\<open>null\<close> or \<^verbatim>\<open>undefined\<close> throws a TypeError; the two explicit
  \<^verbatim>\<open>throw new Error(...)\<close> statements of css-styler.ts carry their message.
\<close>

datatype error = TypeError | Error string

definition blockify :: "css_val \<Rightarrow> css_val" where
  "blockify display =
     (let displayStr = css_toString display
      in Ident
        (if displayStr = ''inline-flex'' then ''flex''
         else if displayStr = ''inline-grid'' then ''grid''
         else if displayStr = ''inline-table'' then ''table''
         else if displayStr \<in> set [''inline'', ''table-row-group'', ''table-column'',
                   ''table-column-group'', ''table-header-group'', ''table-footer-group'',
                   ''table-row'', ''table-cell'', ''table-caption'', ''inline-block'']
           then ''block''
         else displayStr))"

definition isAbsolutelyPositioned :: "css_val option \<Rightarrow> bool" where
  "isAbsolutelyPositioned position =
     (position = Some (Ident ''absolute'') \<or> position = Some (Ident ''fixed''))"

text \<open>
  \<open>blockify\<close> calls \<open>display.toString()\<close>, which throws when \<open>display\<close> is \<^verbatim>\<open>null\<close>.
\<close>

definition getComputedDislayValue ::
  "css_val option \<Rightarrow> css_val option \<Rightarrow> css_val option \<Rightarrow> bool
     \<Rightarrow> error + (css_val option \<times> css_val option \<times> css_val option)" where
  "getComputedDislayValue display position float isRoot =
     (if display = Some (Ident ''none'') then Inr (display, position, float)
      else if isAbsolutelyPositioned position then
        (case display of
           None \<Rightarrow> Inl TypeError
         | Some d \<Rightarrow> Inr (Some (blockify d), position, Some (Ident ''none'')))
      else if (float \<noteq> None \<and> float \<noteq> Some (Ident ''none'')) \<or> isRoot then
        (case display of
           None \<Rightarrow> Inl TypeError
         | Some d \<Rightarrow> Inr (Some (blockify d), position, float))
      else Inr (display, position, float))"

definition Display_isBlock ::
  "css_val option \<Rightarrow> css_val option \<Rightarrow> css_val option \<Rightarrow> bool \<Rightarrow> error + bool" where
  "Display_isBlock display position float isRoot =
     (case getComputedDislayValue display position float isRoot of
        Inl e \<Rightarrow> Inl e
      | Inr (display', position', float') \<Rightarrow> Inr (display' = Some (Ident ''block'')))"

section \<open>css-styler.ts: flow chunks, boxes and the box stack\<close>

subsection \<open>The heap: flow chunks and box identities\<close>

text \<open>
  Modelled from the spec: the class \<open>Vtree.FlowChunk\<close> of vtree.ts, of which css-styler.ts
  has the constructor call and the uses of \<open>flowName\<close> and \<open>breakBefore\<close>. Its fields are
  those of the specification's data model, which are the nine arguments that
  \<open>encounteredFlowElement\<close> passes to the constructor (flowName, element, startOffset,
  priority, linger, exclusive, repeated, last, breakBefore), here prefixed with \<open>chunk\<close>
  because boxes have fields of the same names. A chunk is shared by reference between
  the styler's chunk list and every box of the chunk, and boxes write to it; chunks
  therefore live in a store, addressed by natural numbers. \<open>chunkLinger = None\<close> stands for \<open>Number.POSITIVE_INFINITY\<close>. \<open>boxCount\<close> counts the
  \<open>Box\<close> objects allocated so far and provides the identity of the next one.
\<close>

record FlowChunk =
  chunkFlowName :: string
  chunkElement :: nat
  chunkStartOffset :: int
  chunkPriority :: int
  chunkLinger :: "int option"
  chunkExclusive :: bool
  chunkRepeated :: bool
  chunkLast :: bool
  chunkBreakBefore :: "string option"

record store =
  chunks :: "nat \<Rightarrow> FlowChunk"
  boxCount :: nat

text \<open>The assignment \<^verbatim>\<open>flowChunk.breakBefore = v\<close>.\<close>

definition assign_chunk_breakBefore :: "nat \<Rightarrow> string option \<Rightarrow> store \<Rightarrow> store" where
  "assign_chunk_breakBefore fc v s =
     s\<lparr>chunks := (chunks s)(fc := (chunks s fc)\<lparr>chunkBreakBefore := v\<rparr>)\<rparr>"

subsection \<open>Cascaded styles\<close>

text \<open>
  An \<open>ElementStyle\<close> maps property names to cascade values and may carry, under the key
  \<open>_pseudos\<close>, a map of pseudo-element styles, of which the styler reads \<open>before\<close> and
  \<open>after\<close>. A cascade value is used through \<open>evaluate(context, name)\<close> only, so it is
  modelled by that function; \<open>'c\<close> is the state of the shared expression context.
\<close>

datatype 'c ElementStyle =
  ElementStyle (props: "(string \<times> ('c \<Rightarrow> string \<Rightarrow> css_val)) list")
               (pseudoMap: "'c PseudoMap option")
and 'c PseudoMap =
  PseudoMap (before: "'c ElementStyle option") (after: "'c ElementStyle option")

subsection \<open>Box\<close>

text \<open>
  The fields of a box other than its two pseudo-element boxes. \<open>ref\<close> is the identity of
  the object, which \<open>nearestBlockStartOffset\<close> compares with \<^verbatim>\<open>===\<close>. The field
  \<open>context\<close> of the source refers to the shared context object; the operations below
  take its current state as their first argument instead.
\<close>

record 'c BoxCore =
  style :: "'c ElementStyle"
  offset :: int
  isRoot :: bool
  flowChunk :: nat
  atBlockStart :: bool
  atFlowStart :: bool
  isParentBoxDisplayed :: bool
  ref :: nat
  flowName :: string
  isBlockValue :: "bool option"
  hasBoxValue :: "bool option"
  styleValues :: "(string \<times> css_val option) list"
  breakBefore :: "string option"

datatype 'c Box =
  Box (core: "'c BoxCore") (beforeBox: "'c Box option") (afterBox: "'c Box option")

fun update_core :: "('c BoxCore \<Rightarrow> 'c BoxCore) \<Rightarrow> 'c Box \<Rightarrow> 'c Box" where
  "update_core f (Box c b a) = Box (f c) b a"

fun assign_beforeBox :: "'c Box option \<Rightarrow> 'c Box \<Rightarrow> 'c Box" where
  "assign_beforeBox b' (Box c b a) = Box c b' a"

fun assign_afterBox :: "'c Box option \<Rightarrow> 'c Box \<Rightarrow> 'c Box" where
  "assign_afterBox a' (Box c b a) = Box c b a'"

text \<open>
  \<open>styleValue\<close> memoizes per property name: a name already in \<open>styleValues\<close> is answered
  from there; otherwise the cascade value is evaluated in the current context, or the
  default (\<^verbatim>\<open>defaultValue || null\<close>) is taken, and the answer is stored.
\<close>

definition styleValue ::
  "'c \<Rightarrow> string \<Rightarrow> css_val option \<Rightarrow> 'c Box \<Rightarrow> css_val option \<times> 'c Box" where
  "styleValue ctx name defaultValue b =
     (case map_of (styleValues (core b)) name of
        Some v \<Rightarrow> (v, b)
      | None \<Rightarrow>
          (let v = (case map_of (props (style (core b))) name of
                      Some cv \<Rightarrow> Some (cv ctx name)
                    | None \<Rightarrow> defaultValue)
           in (v, update_core (\<lambda>c. c\<lparr>styleValues := (name, v) # styleValues c\<rparr>) b)))"

definition displayValue :: "'c \<Rightarrow> 'c Box \<Rightarrow> css_val option \<times> 'c Box" where
  "displayValue ctx b = styleValue ctx ''display'' (Some (Ident ''inline'')) b"

definition isBlock :: "'c \<Rightarrow> 'c Box \<Rightarrow> error + (bool \<times> 'c Box)" where
  "isBlock ctx b =
     (case isBlockValue (core b) of
        Some v \<Rightarrow> Inr (v, b)
      | None \<Rightarrow>
          (let (display, b1) = displayValue ctx b;
               (position, b2) = styleValue ctx ''position'' None b1;
               (float, b3) = styleValue ctx ''float'' None b2
           in case Display_isBlock display position float (isRoot (core b3)) of
                Inl e \<Rightarrow> Inl e
              | Inr v \<Rightarrow> Inr (v, update_core (\<lambda>c. c\<lparr>isBlockValue := Some v\<rparr>) b3)))"

definition hasBox :: "'c \<Rightarrow> 'c Box \<Rightarrow> bool \<times> 'c Box" where
  "hasBox ctx b =
     (case hasBoxValue (core b) of
        Some v \<Rightarrow> (v, b)
      | None \<Rightarrow>
          (if isParentBoxDisplayed (core b) then
             (let (display, b1) = displayValue ctx b;
                  v = (display \<noteq> Some (Ident ''none''))
              in (v, update_core (\<lambda>c. c\<lparr>hasBoxValue := Some v\<rparr>) b1))
           else (False, update_core (\<lambda>c. c\<lparr>hasBoxValue := Some False\<rparr>) b)))"

definition getBreakValue :: "'c \<Rightarrow> string \<Rightarrow> 'c Box \<Rightarrow> error + (string option \<times> 'c Box)" where
  "getBreakValue ctx edge b =
     (case isBlock ctx b of
        Inl e \<Rightarrow> Inl e
      | Inr (block, b1) \<Rightarrow>
          (if block then
             (let (val, b2) = styleValue ctx (''break-'' @ edge) None b1
              in Inr (map_option css_toString val, b2))
           else Inr (None, b1)))"

text \<open>
  The constructor. \<open>Vtree.nonTrivialContent\<close> belongs to vtree.ts and is the parameter
  \<open>ntc\<close>: nothing is assumed of it. The constructor is given in the order of its statements:
  the field initialisers (\<open>Box_fields\<close>; the new object takes the next identity), the
  construction of the \<open>::before\<close> box when the box is displayed, the decision whether to
  keep that box (\<open>Box_keep_beforeBox\<close>), and the two closing statements that resolve
  \<open>breakBefore\<close> and fold it into the chunk (\<open>Box_resolve_breakBefore\<close>). The constructor
  of the \<open>::before\<close> box runs inside and may itself write the chunk's \<open>breakBefore\<close>.
\<close>

definition Box_fields ::
  "store \<Rightarrow> 'c ElementStyle \<Rightarrow> int \<Rightarrow> bool \<Rightarrow> nat \<Rightarrow> bool \<Rightarrow> bool \<Rightarrow> bool \<Rightarrow> 'c Box" where
  "Box_fields s st off root fc atBS atFS parentDisplayed =
     Box \<lparr>style = st, offset = off, isRoot = root, flowChunk = fc,
          atBlockStart = atBS, atFlowStart = atFS,
          isParentBoxDisplayed = parentDisplayed, ref = boxCount s,
          flowName = chunkFlowName (chunks s fc), isBlockValue = None,
          hasBoxValue = None, styleValues = [], breakBefore = None\<rparr> None None"

definition Box_keep_beforeBox ::
  "(css_val option \<Rightarrow> bool) \<Rightarrow> 'c \<Rightarrow> 'c Box \<Rightarrow> 'c Box \<Rightarrow> 'c Box" where
  "Box_keep_beforeBox ntc ctx this beforeBox0 =
     (let (beforeContent, beforeBox1) = styleValue ctx ''content'' None beforeBox0
      in if ntc beforeContent then
           update_core (\<lambda>c. c\<lparr>breakBefore := breakBefore (core beforeBox1)\<rparr>)
             (assign_beforeBox (Some beforeBox1) this)
         else this)"

definition Box_resolve_breakBefore ::
  "'c \<Rightarrow> nat \<Rightarrow> 'c Box \<Rightarrow> store \<Rightarrow> error + ('c Box \<times> store)" where
  "Box_resolve_breakBefore ctx fc this s =
     (case getBreakValue ctx ''before'' this of
        Inl e \<Rightarrow> Inl e
      | Inr (bv, this1) \<Rightarrow>
          (let this2 = update_core
                 (\<lambda>c. c\<lparr>breakBefore := resolveEffectiveBreakValue bv (breakBefore c)\<rparr>) this1;
               s1 = (if atFlowStart (core this2) \<and> isForcedBreakValue (breakBefore (core this2))
                     then assign_chunk_breakBefore fc
                            (resolveEffectiveBreakValue (chunkBreakBefore (chunks s fc))
                               (breakBefore (core this2))) s
                     else s)
           in Inr (this2, s1)))"

function new_Box ::
  "(css_val option \<Rightarrow> bool) \<Rightarrow> 'c \<Rightarrow> store \<Rightarrow> 'c ElementStyle \<Rightarrow> int \<Rightarrow> bool \<Rightarrow> nat
     \<Rightarrow> bool \<Rightarrow> bool \<Rightarrow> bool \<Rightarrow> error + ('c Box \<times> store)" where
  "new_Box ntc ctx s st off root fc atBS atFS parentDisplayed =
     (let this0 = Box_fields s st off root fc atBS atFS parentDisplayed;
          s0 = s\<lparr>boxCount := Suc (boxCount s)\<rparr>;
          (hb, this1) = hasBox ctx this0
      in case
           (if hb then
              (case pseudoMap st of
                 None \<Rightarrow> Inr (this1, s0)
               | Some pm \<Rightarrow>
                   (case before pm of
                      None \<Rightarrow> Inr (this1, s0)
                    | Some bst \<Rightarrow>
                        (case isBlock ctx this1 of
                           Inl e \<Rightarrow> Inl e
                         | Inr (block, this2) \<Rightarrow>
                             (case new_Box ntc ctx s0 bst off False fc block atFS True of
                                Inl e \<Rightarrow> Inl e
                              | Inr (beforeBox0, s1) \<Rightarrow>
                                  Inr (Box_keep_beforeBox ntc ctx this2 beforeBox0, s1)))))
            else Inr (this1, s0))
         of
           Inl e \<Rightarrow> Inl e
         | Inr (this3, s3) \<Rightarrow> Box_resolve_breakBefore ctx fc this3 s3)"
  by pat_completeness auto
termination
proof (relation "measure (\<lambda>(ntc, ctx, s, st, off, root, fc, atBS, atFS, pd). size st)")
  show "wf (measure (\<lambda>(ntc, ctx, s, st, off, root, fc, atBS, atFS, pd). size st))"
    by simp
next
  fix st :: "'c ElementStyle" and pm bst
  assume "pseudoMap st = Some pm" and "before pm = Some bst"
  then have "size bst < size st"
    by (cases st; cases pm) simp
  then show "\<And>ntc ctx s0 off fc block atFS s root atBS parentDisplayed.
       ((ntc, ctx, s0, bst, off, False, fc, block, atFS, True),
        (ntc, ctx, s, st, off, root, fc, atBS, atFS, parentDisplayed))
       \<in> measure (\<lambda>(ntc, ctx, s, st, off, root, fc, atBS, atFS, pd). size st)"
    by simp
qed

declare new_Box.simps [simp del]

definition buildAfterPseudoElementBox ::
  "(css_val option \<Rightarrow> bool) \<Rightarrow> 'c \<Rightarrow> store \<Rightarrow> int \<Rightarrow> bool \<Rightarrow> bool \<Rightarrow> 'c Box
     \<Rightarrow> error + ('c Box \<times> store)" where
  "buildAfterPseudoElementBox ntc ctx s off atBS atFS b =
     (let (hb, b1) = hasBox ctx b
      in if hb then
           (case pseudoMap (style (core b1)) of
              None \<Rightarrow> Inr (b1, s)
            | Some pm \<Rightarrow>
                (case after pm of
                   None \<Rightarrow> Inr (b1, s)
                 | Some ast \<Rightarrow>
                     (case new_Box ntc ctx s ast off False (flowChunk (core b1)) atBS atFS True of
                        Inl e \<Rightarrow> Inl e
                      | Inr (afterBox0, s1) \<Rightarrow>
                          (let (afterContent, afterBox1) =
                                 styleValue ctx ''content'' None afterBox0
                           in if ntc afterContent then
                                Inr (assign_afterBox (Some afterBox1) b1, s1)
                              else Inr (b1, s1)))))
         else Inr (b1, s))"

subsection \<open>BoxStack\<close>

text \<open>
  The stack is the array \<open>stack\<close>, bottom first. The fields \<open>atBlockStart\<close> and
  \<open>atFlowStart\<close> of the source class are \<open>stackAtBlockStart\<close> and \<open>stackAtFlowStart\<close>
  here, since boxes have fields of the same names.
\<close>

record 'c BoxStack =
  stack :: "'c Box list"
  stackAtBlockStart :: bool
  stackAtFlowStart :: bool
  atStartStack :: "(bool \<times> bool) list"

definition empty :: "'c BoxStack \<Rightarrow> bool" where
  "empty bs = (length (stack bs) = 0)"

definition lastBox :: "'c Box list \<Rightarrow> 'c Box option" where
  "lastBox stk = (if length stk = 0 then None else Some (stk ! (length stk - 1)))"

definition lastFlowName :: "store \<Rightarrow> 'c BoxStack \<Rightarrow> string option" where
  "lastFlowName s bs =
     (case lastBox (stack bs) of
        None \<Rightarrow> None
      | Some b \<Rightarrow> Some (chunkFlowName (chunks s (flowChunk (core b)))))"

text \<open>
  \<open>isCurrentBoxDisplayed\<close> is \<open>stack.every(box => box.displayValue() !== none)\<close>: the
  boxes are visited from the bottom until one fails, and each visited box may fill its
  cache.
\<close>

fun isCurrentBoxDisplayed :: "'c \<Rightarrow> 'c Box list \<Rightarrow> bool \<times> 'c Box list" where
  "isCurrentBoxDisplayed ctx [] = (True, [])"
| "isCurrentBoxDisplayed ctx (b # bs) =
     (let (display, b') = displayValue ctx b
      in if display \<noteq> Some (Ident ''none'') then
           (let (r, bs') = isCurrentBoxDisplayed ctx bs in (r, b' # bs'))
         else (False, b' # bs))"

text \<open>\<open>atStartStack.pop()\<close> yields the last saved pair, or \<^verbatim>\<open>undefined\<close> on an empty array.\<close>

definition atStartStack_top :: "(bool \<times> bool) list \<Rightarrow> (bool \<times> bool) option" where
  "atStartStack_top ps = (if length ps = 0 then None else Some (ps ! (length ps - 1)))"

definition push ::
  "(css_val option \<Rightarrow> bool) \<Rightarrow> 'c \<Rightarrow> store \<Rightarrow> 'c BoxStack \<Rightarrow> 'c ElementStyle \<Rightarrow> int \<Rightarrow> bool
     \<Rightarrow> nat option \<Rightarrow> error + ('c Box \<times> 'c BoxStack \<times> store)" where
  "push ntc ctx s bs st off root newFlowChunk =
     (let last_box = lastBox (stack bs);
          atStartStack' =
            (case newFlowChunk of
               None \<Rightarrow> atStartStack bs
             | Some nfc \<Rightarrow>
                 (case last_box of
                    None \<Rightarrow> atStartStack bs
                  | Some lb \<Rightarrow>
                      if chunkFlowName (chunks s nfc) \<noteq> flowName (core lb)
                      then atStartStack bs @ [(stackAtBlockStart bs, stackAtFlowStart bs)]
                      else atStartStack bs))
      in case
           (case newFlowChunk of
              Some nfc \<Rightarrow> Inr nfc
            | None \<Rightarrow>
                (case last_box of
                   None \<Rightarrow> Inl TypeError
                 | Some lb \<Rightarrow> Inr (flowChunk (core lb))))
         of
           Inl e \<Rightarrow> Inl e
         | Inr fc \<Rightarrow>
             (let isAtFlowStart = (stackAtFlowStart bs \<or> newFlowChunk \<noteq> None);
                  (parentDisplayed, stack1) = isCurrentBoxDisplayed ctx (stack bs)
              in case new_Box ntc ctx s st off root fc
                        (isAtFlowStart \<or> stackAtBlockStart bs) isAtFlowStart parentDisplayed of
                   Inl e \<Rightarrow> Inl e
                 | Inr (box, s1) \<Rightarrow>
                     (let (hb, box1) = hasBox ctx box
                      in case
                           (if hb \<and> beforeBox box1 = None then isBlock ctx box1
                            else Inr (False, box1))
                         of
                           Inl e \<Rightarrow> Inl e
                         | Inr (block, box2) \<Rightarrow>
                             Inr (box2,
                                  \<lparr>stack = stack1 @ [box2],
                                   stackAtBlockStart =
                                     (if hb then block else stackAtBlockStart bs),
                                   stackAtFlowStart =
                                     (if hb then beforeBox box1 = None \<and> isAtFlowStart
                                      else stackAtFlowStart bs),
                                   atStartStack = atStartStack'\<rparr>,
                                  s1))))"

definition pop ::
  "(css_val option \<Rightarrow> bool) \<Rightarrow> 'c \<Rightarrow> store \<Rightarrow> 'c BoxStack \<Rightarrow> int
     \<Rightarrow> error + ('c Box \<times> 'c BoxStack \<times> store)" where
  "pop ntc ctx s bs off =
     (case lastBox (stack bs) of
        None \<Rightarrow> Inl TypeError
      | Some box \<Rightarrow>
          (let stack' = butlast (stack bs)
           in case buildAfterPseudoElementBox ntc ctx s off
                     (stackAtBlockStart bs) (stackAtFlowStart bs) box of
                Inl e \<Rightarrow> Inl e
              | Inr (box1, s1) \<Rightarrow>
                  (case
                     (if stackAtFlowStart bs then
                        (case afterBox box1 of
                           None \<Rightarrow> Inr (box1, s1)
                         | Some ab \<Rightarrow>
                             (case getBreakValue ctx ''before'' ab of
                                Inl e \<Rightarrow> Inl e
                              | Inr (breakBefore', ab') \<Rightarrow>
                                  Inr (assign_afterBox (Some ab') box1,
                                       assign_chunk_breakBefore (flowChunk (core box1))
                                         (resolveEffectiveBreakValue
                                            (chunkBreakBefore (chunks s1 (flowChunk (core box1))))
                                            breakBefore') s1)))
                      else Inr (box1, s1))
                   of
                     Inl e \<Rightarrow> Inl e
                   | Inr (box2, s2) \<Rightarrow>
                       (case lastBox stack' of
                          None \<Rightarrow> Inr (box2, bs\<lparr>stack := stack'\<rparr>, s2)
                        | Some parent \<Rightarrow>
                            if flowName (core parent) = flowName (core box2) then
                              (let (hb, box3) = hasBox ctx box2
                               in if hb then
                                    Inr (box3,
                                         bs\<lparr>stack := stack', stackAtBlockStart := False,
                                            stackAtFlowStart := False\<rparr>, s2)
                                  else Inr (box3, bs\<lparr>stack := stack'\<rparr>, s2))
                            else
                              (case atStartStack_top (atStartStack bs) of
                                 None \<Rightarrow> Inl TypeError
                               | Some atStart \<Rightarrow>
                                   Inr (box2,
                                        bs\<lparr>stack := stack',
                                           stackAtBlockStart := fst atStart,
                                           stackAtFlowStart := snd atStart,
                                           atStartStack := butlast (atStartStack bs)\<rparr>,
                                        s2))))))"

text \<open>
  \<open>nearestBlockStartOffset\<close>: the loop \<^verbatim>\<open>while (i >= 0)\<close> with its variables \<open>box\<close>,
  \<open>parent = stack[i]\<close> and \<open>i\<close> is the function \<open>nearest_loop\<close>; the index is an \<open>int\<close>
  because it runs down to \<open>-1\<close>.
\<close>

function nearest_loop :: "'c Box list \<Rightarrow> 'c Box \<Rightarrow> int \<Rightarrow> error + int" where
  "nearest_loop stk box i =
     (if 0 \<le> i then
        (let parent = stk ! nat i
         in if flowName (core parent) \<noteq> flowName (core box) then Inr (offset (core box))
            else if \<not> atBlockStart (core parent) then Inr (offset (core parent))
            else if isRoot (core parent) then Inr (offset (core parent))
            else nearest_loop stk parent (i - 1))
      else Inl (Error ''No block start offset found!''))"
  by pat_completeness auto
termination
  by (relation "measure (\<lambda>(stk, box, i). nat (i + 1))") auto

declare nearest_loop.simps [simp del]

definition nearestBlockStartOffset :: "'c Box list \<Rightarrow> 'c Box \<Rightarrow> error + int" where
  "nearestBlockStartOffset stk box =
     (if \<not> atBlockStart (core box) then Inr (offset (core box))
      else
        (let i = int (length stk) - 1
         in if 0 \<le> i \<and> ref (core (stk ! nat i)) = ref (core box)
            then nearest_loop stk box (i - 1)
            else nearest_loop stk box i))"

subsection \<open>Styler: forced break offsets\<close>

text \<open>
  Modelled from the spec: the class \<open>Vtree.Flow\<close> of vtree.ts, with the fields of the
  specification's data model (name, parent flow name, list of forced-break offsets);
  the styler constructs it from a flow name and the parent flow name and uses its field
  \<open>forcedBreakOffsets\<close>. Of the styler's state, \<open>registerForcedBreakOffset\<close> touches the
  flow registry \<open>flows\<close> and the table \<open>breakBeforeValues\<close>.
\<close>

record Flow =
  flow_name :: string
  parentFlowName :: "string option"
  forcedBreakOffsets :: "int list"

record Styler =
  flows :: "string \<rightharpoonup> Flow"
  breakBeforeValues :: "int \<rightharpoonup> string option"

text \<open>
  \<open>this.flows[flowName].forcedBreakOffsets\<close> throws a TypeError when the flow is not
  registered. An absent entry of \<open>breakBeforeValues\<close> reads as \<^verbatim>\<open>undefined\<close>, which
  \<open>resolveEffectiveBreakValue\<close> treats as it treats \<^verbatim>\<open>null\<close>.
\<close>

definition registerForcedBreakOffset ::
  "string option \<Rightarrow> int \<Rightarrow> string \<Rightarrow> Styler \<Rightarrow> error + Styler" where
  "registerForcedBreakOffset breakValue off flowName' st =
     (case
        (if isForcedBreakValue breakValue then
           (case flows st flowName' of
              None \<Rightarrow> Inl TypeError
            | Some fl \<Rightarrow>
                (let fbo = forcedBreakOffsets fl
                 in if length fbo = 0 \<or> fbo ! (length fbo - 1) < off then
                      Inr (st\<lparr>flows := (flows st)
                                (flowName' \<mapsto> fl\<lparr>forcedBreakOffsets := fbo @ [off]\<rparr>)\<rparr>)
                    else Inr st))
         else Inr st)
      of
        Inl e \<Rightarrow> Inl e
      | Inr st1 \<Rightarrow>
          (let previousValue = (case breakBeforeValues st1 off of None \<Rightarrow> None | Some v \<Rightarrow> v)
           in Inr (st1\<lparr>breakBeforeValues := (breakBeforeValues st1)
                        (off \<mapsto> resolveEffectiveBreakValue previousValue breakValue)\<rparr>)))"

text \<open>A sequence of calls; an exception ends it.\<close>

datatype registration = Register "string option" int string

fun register_all :: "Styler \<Rightarrow> registration list \<Rightarrow> error + Styler" where
  "register_all st [] = Inr st"
| "register_all st (Register breakValue off flowName' # rs) =
     (case registerForcedBreakOffset breakValue off flowName' st of
        Inl e \<Rightarrow> Inl e
      | Inr st' \<Rightarrow> register_all st' rs)"

text \<open>
  The two places of \<open>styleUntil\<close> that call \<open>nearestBlockStartOffset\<close>: after a box has
  been pushed, its \<open>breakBefore\<close> is registered at the offset found; after a box has been
  popped and has an \<open>::after\<close> box, that box's \<open>break-before\<close> is registered at the offset
  found when the \<open>::after\<close> box is at a block start. Neither place has a handler.
\<close>

definition styleUntil_register_breakBefore ::
  "'c Box list \<Rightarrow> 'c Box \<Rightarrow> Styler \<Rightarrow> error + Styler" where
  "styleUntil_register_breakBefore stk box st =
     (case nearestBlockStartOffset stk box of
        Inl e \<Rightarrow> Inl e
      | Inr blockStartOffset \<Rightarrow>
          registerForcedBreakOffset (breakBefore (core box)) blockStartOffset
            (flowName (core box)) st)"

definition styleUntil_register_afterPseudo ::
  "'c \<Rightarrow> 'c Box list \<Rightarrow> 'c Box \<Rightarrow> Styler \<Rightarrow> error + Styler" where
  "styleUntil_register_afterPseudo ctx stk box st =
     (case afterBox box of
        None \<Rightarrow> Inr st
      | Some after_box \<Rightarrow>
          (case getBreakValue ctx ''before'' after_box of
             Inl e \<Rightarrow> Inl e
           | Inr (afterPseudoBreakBefore, after_box') \<Rightarrow>
               (case (if atBlockStart (core after_box') then nearestBlockStartOffset stk box
                      else Inr (offset (core after_box'))) of
                  Inl e \<Rightarrow> Inl e
                | Inr off \<Rightarrow>
                    registerForcedBreakOffset afterPseudoBreakBefore off
                      (flowName (core box)) st)))"

subsection \<open>The walk of nearestBlockStartOffset as the specification words it\<close>

text \<open>
  The ancestors of a box, nearest first: the stack from the top down, without the top
  when the top is the box itself.
\<close>

definition ancestors :: "'c Box list \<Rightarrow> 'c Box \<Rightarrow> 'c Box list" where
  "ancestors stk box =
     (if stk \<noteq> [] \<and> ref (core (last stk)) = ref (core box) then rev (butlast stk)
      else rev stk)"

text \<open>
  As the specification has it: walk upward while the ancestor shares the box's flow and
  is at its block start; return the offset of the first ancestor that breaks either
  condition, or the offset of a root ancestor; fail when the ancestors are exhausted.
\<close>

fun spec_walk :: "'c Box \<Rightarrow> 'c Box list \<Rightarrow> error + int" where
  "spec_walk box [] = Inl (Error ''No block start offset found!'')"
| "spec_walk box (p # ps) =
     (if flowName (core p) \<noteq> flowName (core box) \<or> \<not> atBlockStart (core p)
      then Inr (offset (core p))
      else if isRoot (core p) then Inr (offset (core p))
      else spec_walk box ps)"

definition spec_nearestBlockStartOffset :: "'c Box list \<Rightarrow> 'c Box \<Rightarrow> error + int" where
  "spec_nearestBlockStartOffset stk box =
     (if \<not> atBlockStart (core box) then Inr (offset (core box))
      else spec_walk box (ancestors stk box))"

text \<open>
  The same walk, except that an ancestor in another flow ends it with the offset of the
  box reached just below that ancestor: the box itself, or the last ancestor passed.
\<close>

fun boundary_walk :: "'c Box \<Rightarrow> 'c Box list \<Rightarrow> error + int" where
  "boundary_walk cur [] = Inl (Error ''No block start offset found!'')"
| "boundary_walk cur (p # ps) =
     (if flowName (core p) \<noteq> flowName (core cur) then Inr (offset (core cur))
      else if \<not> atBlockStart (core p) then Inr (offset (core p))
      else if isRoot (core p) then Inr (offset (core p))
      else boundary_walk p ps)"

subsection \<open>What an operation may change in the chunk store\<close>

text \<open>
  \<open>chunk_frame fc s s'\<close>: from \<open>s\<close> to \<open>s'\<close> no chunk changed in any field other than
  \<open>breakBefore\<close>, and no chunk other than \<open>fc\<close> changed at all.
\<close>

definition chunk_frame :: "nat \<Rightarrow> store \<Rightarrow> store \<Rightarrow> bool" where
  "chunk_frame fc s s' =
     (\<forall>r. chunks s' r = (chunks s r)\<lparr>chunkBreakBefore := chunkBreakBefore (chunks s' r)\<rparr>
          \<and> (r \<noteq> fc \<longrightarrow> chunks s' r = chunks s r))"

subsection \<open>Concrete values used in the examples\<close>

definition example_chunk :: "string \<Rightarrow> FlowChunk" where
  "example_chunk name =
     \<lparr>chunkFlowName = name, chunkElement = 0, chunkStartOffset = 0, chunkPriority = 0,
      chunkLinger = None, chunkExclusive = False, chunkRepeated = False, chunkLast = False,
      chunkBreakBefore = None\<rparr>"

definition example_store :: store where
  "example_store = \<lparr>chunks = (\<lambda>r. example_chunk ''body''), boxCount = 0\<rparr>"

text \<open>A block element with \<open>break-before: page\<close> and no pseudo-elements.\<close>

definition page_break_style :: "unit ElementStyle" where
  "page_break_style =
     ElementStyle [(''display'', \<lambda>ctx name. Ident ''block''),
                   (''break-before'', \<lambda>ctx name. Ident ''page'')] None"

text \<open>A box as it stands on the stack: identity, flow, offset, the two flags read by the walk.\<close>

definition example_box :: "nat \<Rightarrow> string \<Rightarrow> int \<Rightarrow> bool \<Rightarrow> bool \<Rightarrow> unit Box" where
  "example_box r name off atBS root =
     Box \<lparr>style = ElementStyle [] None, offset = off, isRoot = root, flowChunk = 0,
          atBlockStart = atBS, atFlowStart = False, isParentBoxDisplayed = True, ref = r,
          flowName = name, isBlockValue = None, hasBoxValue = None, styleValues = [],
          breakBefore = None\<rparr> None None"

text \<open>
  A style whose \<open>display\<close> depends on the state of the context: \<open>block\<close> in state 0,
  \<open>none\<close> in every other state.
\<close>

definition context_sensitive_style :: "nat ElementStyle" where
  "context_sensitive_style =
     ElementStyle [(''display'', \<lambda>ctx name. if ctx = 0 then Ident ''block'' else Ident ''none'')]
       None"

text \<open>A styler that knows the flow \<open>body\<close>, and four registrations for it.\<close>

definition example_styler :: Styler where
  "example_styler =
     \<lparr>flows = [''body'' \<mapsto> \<lparr>flow_name = ''body'', parentFlowName = None,
                              forcedBreakOffsets = []\<rparr>],
      breakBeforeValues = Map.empty\<rparr>"

definition example_registrations :: "registration list" where
  "example_registrations =
     [Register (Some ''page'') 3 ''body'', Register (Some ''avoid'') 5 ''body'',
      Register (Some ''left'') 3 ''body'', Register (Some ''column'') 7 ''body'']"

section \<open>Properties of the break resolver\<close>

lemmas break_defs =
  resolveEffectiveBreakValue_def falsy_def isForcedBreakValue_def isSpreadBreakValue_def
  isAvoidBreakValue_def forcedBreakValues_def spreadBreakValues_def avoidBreakValues_def
  truthy_entry_def objectPrototypeNames_def

lemmas spec_break_defs =
  spec_spread_class_def spec_forced_class_def spec_avoid_class_def

lemma break_value_domain_cases:
  "v \<in> set break_value_domain \<Longrightarrow>
   v = None \<or> v = Some ''avoid'' \<or> v = Some ''avoid-page'' \<or> v = Some ''avoid-column''
   \<or> v = Some ''avoid-region'' \<or> v = Some ''page'' \<or> v = Some ''left'' \<or> v = Some ''right''
   \<or> v = Some ''recto'' \<or> v = Some ''verso'' \<or> v = Some ''column'' \<or> v = Some ''region''"
  by (simp add: break_value_domain_def)

lemma resolve_on_domain:
  "second \<in> set break_value_domain \<Longrightarrow> first \<in> set break_value_domain \<Longrightarrow>
   resolveEffectiveBreakValue first second = spec_resolve_region_weaker first second"
  apply (drule break_value_domain_cases)
  apply (drule break_value_domain_cases)
  apply (elim disjE; hypsubst; simp add: break_defs spec_break_defs spec_resolve_region_weaker_def)
  done

text \<open>
  C2, counterexample: \<open>column\<close> and \<open>region\<close> are both in the domain and both forced; the
  code returns \<open>region\<close> for \<open>(column, region)\<close>, the rules as stated return \<open>column\<close>.
\<close>

theorem resolveEffectiveBreakValue_counterexample:
  "Some ''column'' \<in> set break_value_domain \<and> Some ''region'' \<in> set break_value_domain
   \<and> resolveEffectiveBreakValue (Some ''column'') (Some ''region'') = Some ''region''
   \<and> spec_resolve (Some ''column'') (Some ''region'') = Some ''column''"
  by (simp add: break_value_domain_def break_defs spec_break_defs spec_resolve_def)

text \<open>
  C2, as amended: on the twelve values of the domain \<open>resolveEffectiveBreakValue\<close> equals
  the five rules in priority order, with rule 2 reading: when both values are forced,
  return \<open>first\<close> if \<open>second\<close> is \<open>column\<close>; if \<open>second\<close> is \<open>region\<close> return \<open>second\<close> only
  when \<open>first\<close> is \<open>column\<close> and \<open>first\<close> otherwise; else return \<open>second\<close>. In particular
  \<open>(avoid, left)\<close> gives \<open>left\<close> and \<open>(left, page)\<close> gives \<open>left\<close>.
\<close>

theorem resolveEffectiveBreakValue_rules:
  assumes "first \<in> set break_value_domain" and "second \<in> set break_value_domain"
  shows "resolveEffectiveBreakValue first second = spec_resolve_region_weaker first second
         \<and> resolveEffectiveBreakValue (Some ''avoid'') (Some ''left'') = Some ''left''
         \<and> resolveEffectiveBreakValue (Some ''left'') (Some ''page'') = Some ''left''"
proof -
  have "resolveEffectiveBreakValue first second = spec_resolve_region_weaker first second"
    using assms(2) assms(1) by (rule resolve_on_domain)
  moreover have "resolveEffectiveBreakValue (Some ''avoid'') (Some ''left'') = Some ''left''"
    by (simp add: break_defs)
  moreover have "resolveEffectiveBreakValue (Some ''left'') (Some ''page'') = Some ''left''"
    by (simp add: break_defs)
  ultimately show ?thesis by blast
qed

theorem resolveEffectiveBreakValue_rules_witness:
  "Some ''page'' \<in> set break_value_domain \<and> Some ''region'' \<in> set break_value_domain
   \<and> resolveEffectiveBreakValue (Some ''page'') (Some ''region'') = Some ''page''
   \<and> spec_resolve_region_weaker (Some ''page'') (Some ''region'') = Some ''page''"
proof -
  have d1: "Some ''page'' \<in> set break_value_domain"
    and d2: "Some ''region'' \<in> set break_value_domain"
    by (simp_all add: break_value_domain_def)
  have "spec_resolve_region_weaker (Some ''page'') (Some ''region'') = Some ''page''"
    by (simp add: spec_break_defs spec_resolve_region_weaker_def)
  with resolveEffectiveBreakValue_rules[OF d1 d2] d1 d2 show ?thesis by simp
qed

section \<open>Properties of the offset map\<close>

subsection \<open>Auxiliary facts\<close>

lemma addStuckRange_Nil: "addStuckRange f [] = [new_SlipRange f f f]"
  by (simp add: addStuckRange_def)

lemma addStuckRange_snoc:
  "addStuckRange f (xs @ [r]) =
     (if endFixed r = endStuckFixed r
      then xs @ [r\<lparr>endFixed := f, endStuckFixed := f, endSlipped := endSlipped r + f - endFixed r\<rparr>]
      else xs @ [r, new_SlipRange f f (endSlipped r + f - endFixed r)])"
  by (simp add: addStuckRange_def Let_def)

lemma addSlippedRange_Nil: "addSlippedRange f [] = [new_SlipRange f 0 0]"
  by (simp add: addSlippedRange_def)

lemma addSlippedRange_snoc: "addSlippedRange f (xs @ [r]) = xs @ [r\<lparr>endFixed := f\<rparr>]"
  by (simp add: addSlippedRange_def)

lemma getMaxFixed_last: "getMaxFixed m = (if m = [] then 0 else endFixed (last m))"
  by (simp add: getMaxFixed_def last_conv_nth)

lemma bisect_least:
  assumes "l \<le> h"
    and "\<And>i j. l \<le> i \<Longrightarrow> i \<le> j \<Longrightarrow> j < h \<Longrightarrow> fn i \<Longrightarrow> fn j"
  shows "l \<le> bisect l h fn \<and> bisect l h fn \<le> h
         \<and> (\<forall>i. l \<le> i \<and> i < bisect l h fn \<longrightarrow> \<not> fn i)
         \<and> (bisect l h fn < h \<longrightarrow> fn (bisect l h fn))"
  using assms
proof (induction l h fn rule: bisect.induct)
  case (1 l h fn)
  show ?case
  proof (cases "h \<le> l")
    case True
    then have "bisect l h fn = l" by (subst bisect.simps) simp
    with True "1.prems"(1) show ?thesis by auto
  next
    case False
    define m where "m = (l + h) div 2"
    have m: "l \<le> m" "m < h" using False by (auto simp: m_def)
    show ?thesis
    proof (cases "fn m")
      case True
      have eq: "bisect l h fn = bisect l m fn"
        using False True by (subst bisect.simps) (simp add: m_def)
      have ih: "l \<le> bisect l m fn \<and> bisect l m fn \<le> m
         \<and> (\<forall>i. l \<le> i \<and> i < bisect l m fn \<longrightarrow> \<not> fn i)
         \<and> (bisect l m fn < m \<longrightarrow> fn (bisect l m fn))"
      proof (rule "1.IH"(1)[OF False m_def True m(1)])
        fix i j assume a: "l \<le> i" "i \<le> j" "j < m" "fn i"
        then have "j < h" using m(2) by linarith
        from "1.prems"(2)[OF a(1) a(2) this a(4)] show "fn j" .
      qed
      have "fn (bisect l m fn)"
      proof (cases "bisect l m fn < m")
        case True
        with ih show ?thesis by blast
      next
        case False
        with ih have "bisect l m fn = m" by linarith
        with True show ?thesis by simp
      qed
      moreover have "bisect l m fn \<le> h" using ih m by linarith
      ultimately show ?thesis unfolding eq using ih by blast
    next
      case fm: False
      have eq: "bisect l h fn = bisect (m + 1) h fn"
        using False fm by (subst bisect.simps) (simp add: m_def)
      have ih: "m + 1 \<le> bisect (m + 1) h fn \<and> bisect (m + 1) h fn \<le> h
         \<and> (\<forall>i. m + 1 \<le> i \<and> i < bisect (m + 1) h fn \<longrightarrow> \<not> fn i)
         \<and> (bisect (m + 1) h fn < h \<longrightarrow> fn (bisect (m + 1) h fn))"
      proof (rule "1.IH"(2)[OF False m_def fm])
        show "m + 1 \<le> h" using m(2) by linarith
      next
        fix i j assume a: "m + 1 \<le> i" "i \<le> j" "j < h" "fn i"
        then have "l \<le> i" using m(1) by linarith
        from "1.prems"(2)[OF this a(2) a(3) a(4)] show "fn j" .
      qed
      have below: "\<not> fn i" if "l \<le> i" "i \<le> m" for i
        using "1.prems"(2)[OF that(1) that(2) m(2)] fm by blast
      have "\<not> fn i" if "l \<le> i" "i < bisect (m + 1) h fn" for i
      proof (cases "i \<le> m")
        case True
        with that(1) show ?thesis by (rule below)
      next
        case False
        then have "m + 1 \<le> i" by simp
        with ih that(2) show ?thesis by blast
      qed
      moreover have "l \<le> bisect (m + 1) h fn" using ih m by linarith
      ultimately show ?thesis unfolding eq using ih by blast
    qed
  qed
qed

lemma binarySearch_first:
  assumes "i < n" "fn i" "\<And>j. j < i \<Longrightarrow> \<not> fn j"
    and "\<And>j k. j \<le> k \<Longrightarrow> k < n \<Longrightarrow> fn j \<Longrightarrow> fn k"
  shows "binarySearch n fn = i"
proof -
  let ?r = "binarySearch n fn"
  have spec: "?r \<le> n \<and> (\<forall>j. j < ?r \<longrightarrow> \<not> fn j) \<and> (?r < n \<longrightarrow> fn ?r)"
    unfolding binarySearch_def using bisect_least[of 0 n fn] assms(4) by auto
  have "\<not> i < ?r" using spec assms(2) by blast
  moreover have "\<not> ?r < i"
  proof
    assume lt: "?r < i"
    then have "?r < n" using assms(1) by linarith
    with spec have "fn ?r" by blast
    with assms(3)[OF lt] show False by blast
  qed
  ultimately show ?thesis by simp
qed

lemmas snoc_simps =
  addStuckRange_Nil addStuckRange_snoc addSlippedRange_Nil addSlippedRange_snoc
  getMaxFixed_last

lemma apply_call_nonempty: "apply_call m c \<noteq> []"
  by (cases m rule: rev_cases; cases c) (simp_all add: snoc_simps)

lemma run_calls_Nil: "run_calls m [] = m"
  by (simp add: run_calls_def)

lemma run_calls_Cons: "run_calls m (c # cs) = run_calls (apply_call m c) cs"
  by (simp add: run_calls_def)

lemma run_calls_nonempty: "m \<noteq> [] \<or> cs \<noteq> [] \<Longrightarrow> run_calls m cs \<noteq> []"
  by (induction cs arbitrary: m) (auto simp: run_calls_Nil run_calls_Cons apply_call_nonempty)

lemma monotone_map_step:
  assumes "monotone_map m" "getMaxFixed m \<le> arg c"
  shows "monotone_map (apply_call m c)"
proof (cases m rule: rev_cases)
  case Nil
  then show ?thesis
    by (cases c) (simp_all add: snoc_simps monotone_map_def)
next
  case (snoc xs r)
  from assms(1) snoc have e: "\<forall>x\<in>set xs. endFixed x \<le> endFixed r"
    and s: "\<forall>x\<in>set xs. endSlipped x \<le> endSlipped r"
    and se: "sorted (map endFixed xs)" and ss: "sorted (map endSlipped xs)"
    and lk: "successively linked xs" and lst: "xs \<noteq> [] \<longrightarrow> linked (last xs) r"
    by (auto simp: monotone_map_def sorted_append successively_append_iff)
  from assms(2) snoc have le: "endFixed r \<le> arg c"
    by (simp add: snoc_simps)
  show ?thesis
  proof (cases c)
    case (AddStuckRange f)
    with le have "endFixed r \<le> f" by simp
    then show ?thesis
      using e s se ss lk lst unfolding snoc AddStuckRange
      by (auto simp: snoc_simps monotone_map_def sorted_append successively_append_iff
            linked_def new_SlipRange_def)
  next
    case (AddSlippedRange f)
    with le have "endFixed r \<le> f" by simp
    then show ?thesis
      using e s se ss lk lst unfolding snoc AddSlippedRange
      by (auto simp: snoc_simps monotone_map_def sorted_append successively_append_iff
            linked_def)
  qed
qed

lemma slippedByFixed_at:
  assumes "sorted (map endFixed m)" "i < length m" "f \<le> endFixed (m ! i)"
    and "\<And>j. j < i \<Longrightarrow> endFixed (m ! j) < f"
  shows "slippedByFixed m f = Some (endSlipped (m ! i) - max 0 (endStuckFixed (m ! i) - f))"
proof -
  have "binarySearch (length m) (\<lambda>index. f \<le> endFixed (m ! index)) = i"
  proof (rule binarySearch_first[OF assms(2)])
    show "f \<le> endFixed (m ! i)" by (rule assms(3))
  next
    fix j assume "j < i"
    from assms(4)[OF this] show "\<not> f \<le> endFixed (m ! j)" by simp
  next
    fix j k assume jk: "j \<le> k" "k < length m" "f \<le> endFixed (m ! j)"
    from assms(1) jk(1,2) have "endFixed (m ! j) \<le> endFixed (m ! k)"
      by (auto simp: sorted_iff_nth_mono)
    with jk(3) show "f \<le> endFixed (m ! k)" by simp
  qed
  with assms(2) show ?thesis by (simp add: slippedByFixed_def Let_def)
qed

lemma fixedBySlipped_at:
  assumes "sorted (map endSlipped m)" "i < length m" "v \<le> endSlipped (m ! i)"
    and "\<And>j. j < i \<Longrightarrow> endSlipped (m ! j) < v"
  shows "fixedBySlipped m v = Some (endStuckFixed (m ! i) - (endSlipped (m ! i) - v))"
proof -
  have "binarySearch (length m) (\<lambda>index. v \<le> endSlipped (m ! index)) = i"
  proof (rule binarySearch_first[OF assms(2)])
    show "v \<le> endSlipped (m ! i)" by (rule assms(3))
  next
    fix j assume "j < i"
    from assms(4)[OF this] show "\<not> v \<le> endSlipped (m ! j)" by simp
  next
    fix j k assume jk: "j \<le> k" "k < length m" "v \<le> endSlipped (m ! j)"
    from assms(1) jk(1,2) have "endSlipped (m ! j) \<le> endSlipped (m ! k)"
      by (auto simp: sorted_iff_nth_mono)
    with jk(3) show "v \<le> endSlipped (m ! k)" by simp
  qed
  with assms(2) show ?thesis by (simp add: fixedBySlipped_def Let_def)
qed

lemma first_range:
  assumes "m \<noteq> []" "f \<le> getMaxFixed m"
  shows "\<exists>i<length m. f \<le> endFixed (m ! i) \<and> (\<forall>j<i. endFixed (m ! j) < f)"
proof -
  let ?P = "\<lambda>i. i < length m \<and> f \<le> endFixed (m ! i)"
  have "?P (length m - 1)" using assms by (simp add: getMaxFixed_def)
  then have P: "?P (LEAST i. ?P i)" by (rule LeastI)
  have "endFixed (m ! j) < f" if "j < (LEAST i. ?P i)" for j
  proof -
    from that have "\<not> ?P j" by (rule not_less_Least)
    moreover from that P have "j < length m" by linarith
    ultimately show ?thesis by simp
  qed
  with P show ?thesis by blast
qed

lemma slippedByFixed_mono:
  assumes inv: "monotone_map m" and ne: "m \<noteq> []"
    and le: "f1 \<le> f2" and mx: "f2 \<le> getMaxFixed m"
  shows "\<exists>s1 s2. slippedByFixed m f1 = Some s1 \<and> slippedByFixed m f2 = Some s2 \<and> s1 \<le> s2"
proof -
  from inv have se: "sorted (map endFixed m)" and ss: "sorted (map endSlipped m)"
    and lk: "successively linked m" by (simp_all add: monotone_map_def)
  from first_range[OF ne mx] obtain i2 where i2: "i2 < length m" "f2 \<le> endFixed (m ! i2)"
    "\<And>j. j < i2 \<Longrightarrow> endFixed (m ! j) < f2" by blast
  from le mx have "f1 \<le> getMaxFixed m" by simp
  from first_range[OF ne this] obtain i1 where i1: "i1 < length m" "f1 \<le> endFixed (m ! i1)"
    "\<And>j. j < i1 \<Longrightarrow> endFixed (m ! j) < f1" by blast
  let ?s1 = "endSlipped (m ! i1) - max 0 (endStuckFixed (m ! i1) - f1)"
  let ?s2 = "endSlipped (m ! i2) - max 0 (endStuckFixed (m ! i2) - f2)"
  have v1: "slippedByFixed m f1 = Some ?s1" using se i1 by (rule slippedByFixed_at)
  have v2: "slippedByFixed m f2 = Some ?s2" using se i2 by (rule slippedByFixed_at)
  have "\<not> i2 < i1"
  proof
    assume "i2 < i1"
    from i1(3)[OF this] i2(2) le show False by simp
  qed
  then consider "i1 = i2" | "i1 < i2" by linarith
  then have "?s1 \<le> ?s2"
  proof cases
    case 1
    with le show ?thesis by simp
  next
    case 2
    then obtain k where k: "i2 = Suc k" "i1 \<le> k" by (cases i2) auto
    have "Suc k < length m" using i2(1) k(1) by simp
    with lk have "linked (m ! k) (m ! Suc k)" by (rule successively_nth)
    then have l1: "endSlipped (m ! i2) - endStuckFixed (m ! i2) = endSlipped (m ! k) - endFixed (m ! k)"
      and l2: "endFixed (m ! k) \<le> endStuckFixed (m ! i2)"
      by (simp_all add: linked_def k(1))
    have gt: "endFixed (m ! k) < f2" using i2(3)[of k] k(1) by simp
    have "endSlipped (m ! i1) \<le> endSlipped (m ! k)"
      using ss k i2(1) by (auto simp: sorted_iff_nth_mono)
    moreover have "endSlipped (m ! k) \<le> ?s2" using l1 l2 gt by auto
    ultimately show ?thesis by simp
  qed
  with v1 v2 show ?thesis by blast
qed

lemma follows_arg: "follows c c' \<Longrightarrow> arg c \<le> arg c'"
  by (cases c; cases c') auto

lemma getMaxFixed_apply_nonempty: "m \<noteq> [] \<Longrightarrow> getMaxFixed (apply_call m c) = arg c"
  by (cases m rule: rev_cases; cases c) (simp_all add: snoc_simps new_SlipRange_def)

lemma getMaxFixed_first_call:
  "first_call_ok (c # cs) \<Longrightarrow> getMaxFixed (apply_call [] c) \<le> arg c"
  by (cases c) (simp_all add: snoc_simps new_SlipRange_def)

lemma after_call_first:
  assumes "first_call_ok (c # cs)"
  shows "after_call (apply_call [] c) c"
  using assms
  by (cases c) (simp_all add: after_call_def snoc_simps new_SlipRange_def monotone_map_def gapped_def)

lemma after_call_step:
  assumes K: "after_call m c" and fl: "follows c c'"
  shows "after_call (apply_call m c') c'"
proof -
  from K have mm: "monotone_map m" and gp: "gapped m" and ne: "m \<noteq> []"
    and mx: "getMaxFixed m \<le> arg c"
    and st: "is_stuck c \<longrightarrow> endStuckFixed (last m) = endFixed (last m)"
    by (simp_all add: after_call_def)
  from mx follows_arg[OF fl] have mx': "getMaxFixed m \<le> arg c'" by simp
  have 1: "monotone_map (apply_call m c')" using mm mx' by (rule monotone_map_step)
  have 2: "apply_call m c' \<noteq> []" by (rule apply_call_nonempty)
  have 3: "getMaxFixed (apply_call m c') \<le> arg c'"
    using getMaxFixed_apply_nonempty[OF ne, of c'] by simp
  from ne obtain xs r where m: "m = xs @ [r]" by (cases m rule: rev_cases) auto
  from gp m have gxs: "successively (\<lambda>r r'. endFixed r < endStuckFixed r') xs"
    and glast: "xs \<noteq> [] \<longrightarrow> endFixed (last xs) < endStuckFixed r"
    by (auto simp: gapped_def successively_append_iff)
  from mx m have er: "endFixed r \<le> arg c" by (simp add: snoc_simps)
  have 4: "gapped (apply_call m c')"
  proof (cases c')
    case (AddSlippedRange f)
    then show ?thesis using gxs glast
      by (auto simp: m snoc_simps gapped_def successively_append_iff)
  next
    case (AddStuckRange f)
    show ?thesis
    proof (cases "endFixed r = endStuckFixed r")
      case True
      with er follows_arg[OF fl] AddStuckRange have "endStuckFixed r \<le> f" by simp
      with True AddStuckRange gxs glast show ?thesis
        by (auto simp: m snoc_simps gapped_def successively_append_iff)
    next
      case False
      with st m have "\<not> is_stuck c" by auto
      then obtain g where c: "c = AddSlippedRange g" by (cases c) auto
      with fl AddStuckRange er have "endFixed r < f" by simp
      with False AddStuckRange gxs glast show ?thesis
        by (auto simp: m snoc_simps gapped_def successively_append_iff new_SlipRange_def)
    qed
  qed
  have 5: "is_stuck c' \<longrightarrow> endStuckFixed (last (apply_call m c')) = endFixed (last (apply_call m c'))"
    by (cases c') (simp_all add: m snoc_simps new_SlipRange_def)
  from 1 2 3 4 5 show ?thesis by (simp add: after_call_def)
qed

lemma covered_step:
  assumes K: "after_call m c" and fl: "follows c c'" and cv: "covered m f"
  shows "covered (apply_call m c') f"
proof -
  from K have ne: "m \<noteq> []" and mx: "getMaxFixed m \<le> arg c" by (simp_all add: after_call_def)
  from ne obtain xs r where m: "m = xs @ [r]" by (cases m rule: rev_cases) auto
  from mx m follows_arg[OF fl] have er: "endFixed r \<le> arg c'" by (simp add: snoc_simps)
  from cv obtain i where i: "i < length m" "f \<le> endStuckFixed (m ! i)"
    "endStuckFixed (m ! i) \<le> endFixed (m ! i)" "\<forall>j<i. endFixed (m ! j) < f"
    by (auto simp: covered_def)
  let ?m' = "apply_call m c'"
  have len: "length m \<le> length ?m'"
    by (cases c') (simp_all add: m snoc_simps)
  have pre: "?m' ! j = m ! j" if "j < length xs" for j
    using that by (cases c') (simp_all add: m snoc_simps nth_append)
  show ?thesis
  proof (cases "i < length xs")
    case True
    then have "\<forall>j<i. ?m' ! j = m ! j" using pre by simp
    with i True pre[OF True] len show ?thesis
      unfolding covered_def by (intro exI[of _ i]) auto
  next
    case False
    with i(1) m have il: "i = length xs" by simp
    with i m have r: "f \<le> endStuckFixed r" "endStuckFixed r \<le> endFixed r" by simp_all
    have old: "\<forall>j<i. endFixed (?m' ! j) < f" using i(4) pre il by simp
    have "f \<le> endStuckFixed (?m' ! i) \<and> endStuckFixed (?m' ! i) \<le> endFixed (?m' ! i)"
      using r er il by (cases c') (auto simp: m snoc_simps nth_append)
    with old i(1) len show ?thesis
      unfolding covered_def by (intro exI[of _ i]) auto
  qed
qed

lemma covered_first: "covered (apply_call [] (AddStuckRange f)) f"
  by (simp add: covered_def snoc_simps new_SlipRange_def)

lemma covered_register:
  assumes K: "after_call m c" and fl: "follows c (AddStuckRange f)"
  shows "covered (apply_call m (AddStuckRange f)) f"
proof -
  from K have mm: "monotone_map m" and gp: "gapped m" and ne: "m \<noteq> []"
    and mx: "getMaxFixed m \<le> arg c"
    and st: "is_stuck c \<longrightarrow> endStuckFixed (last m) = endFixed (last m)"
    by (simp_all add: after_call_def)
  from ne obtain xs r where m: "m = xs @ [r]" by (cases m rule: rev_cases) auto
  from mx m have er: "endFixed r \<le> arg c" by (simp add: snoc_simps)
  from mm m have srt: "sorted (map endFixed xs)" and xr: "\<forall>x\<in>set xs. endFixed x \<le> endFixed r"
    by (auto simp: monotone_map_def sorted_append)
  from gp m have glast: "xs \<noteq> [] \<longrightarrow> endFixed (last xs) < endStuckFixed r"
    by (auto simp: gapped_def successively_append_iff)
  show ?thesis
  proof (cases "endFixed r = endStuckFixed r")
    case True
    have below: "endFixed (xs ! j) < f" if "j < length xs" for j
    proof -
      from that have xne: "xs \<noteq> []" by auto
      have "endFixed (xs ! j) \<le> endFixed (last xs)"
        using srt that xne by (auto simp: sorted_iff_nth_mono last_conv_nth)
      also have "\<dots> < endStuckFixed r" using glast xne by simp
      also have "\<dots> \<le> f" using True er follows_arg[OF fl] by simp
      finally show ?thesis .
    qed
    show ?thesis unfolding covered_def
      using True below by (intro exI[of _ "length xs"]) (auto simp: m snoc_simps nth_append)
  next
    case False
    with st m have "\<not> is_stuck c" by auto
    then obtain g where c: "c = AddSlippedRange g" by (cases c) auto
    with fl er have lt: "endFixed r < f" by simp
    have below: "endFixed (xs ! j) < f" if "j < length xs" for j
      using xr that lt by (meson nth_mem order.strict_trans1)
    show ?thesis unfolding covered_def
      using False below lt
      by (intro exI[of _ "Suc (length xs)"])
         (auto simp: m snoc_simps nth_append new_SlipRange_def less_Suc_eq)
  qed
qed

lemma covered_run:
  assumes "after_call m c" "successively follows (c # cs)"
  shows "after_call (run_calls m cs) (last (c # cs))
         \<and> (covered m f \<longrightarrow> covered (run_calls m cs) f)
         \<and> (AddStuckRange f \<in> set cs \<longrightarrow> covered (run_calls m cs) f)"
  using assms
proof (induction cs arbitrary: m c)
  case Nil
  then show ?case by (simp add: run_calls_Nil)
next
  case (Cons d cs)
  from Cons.prems(2) have fl: "follows c d" and rest: "successively follows (d # cs)"
    by simp_all
  have K': "after_call (apply_call m d) d" using Cons.prems(1) fl by (rule after_call_step)
  note ih = Cons.IH[OF K' rest]
  have a: "covered (run_calls m (d # cs)) f" if "covered m f"
  proof -
    have "covered (apply_call m d) f" using Cons.prems(1) fl that by (rule covered_step)
    with ih show ?thesis by (simp add: run_calls_Cons)
  qed
  have b: "covered (run_calls m (d # cs)) f" if "AddStuckRange f \<in> set (d # cs)"
  proof (cases "d = AddStuckRange f")
    case True
    with Cons.prems(1) fl have "covered (apply_call m d) f" using covered_register by blast
    with ih show ?thesis by (simp add: run_calls_Cons)
  next
    case False
    with that have "AddStuckRange f \<in> set cs" by simp
    with ih show ?thesis by (simp add: run_calls_Cons)
  qed
  from ih a b show ?case by (simp add: run_calls_Cons)
qed

lemma roundtrip_covered:
  assumes mm: "monotone_map m" and cv: "covered m f"
  shows "\<exists>v. slippedByFixed m f = Some v \<and> fixedBySlipped m v = Some f"
proof -
  from mm have se: "sorted (map endFixed m)" and ss: "sorted (map endSlipped m)"
    and lk: "successively linked m" by (simp_all add: monotone_map_def)
  from cv obtain i where i: "i < length m" "f \<le> endStuckFixed (m ! i)"
    "endStuckFixed (m ! i) \<le> endFixed (m ! i)" "\<And>j. j < i \<Longrightarrow> endFixed (m ! j) < f"
    by (auto simp: covered_def)
  let ?v = "endSlipped (m ! i) - max 0 (endStuckFixed (m ! i) - f)"
  have v: "?v = endSlipped (m ! i) - (endStuckFixed (m ! i) - f)" using i(2) by simp
  have 1: "slippedByFixed m f = Some ?v"
    using se i(1) _ i(4) by (rule slippedByFixed_at) (use i(2,3) in simp)
  have below: "endSlipped (m ! j) < ?v" if "j < i" for j
  proof -
    from that obtain k where k: "i = Suc k" "j \<le> k" by (cases i) auto
    have "Suc k < length m" using i(1) k(1) by simp
    with lk have "linked (m ! k) (m ! Suc k)" by (rule successively_nth)
    then have l1: "endSlipped (m ! i) - endStuckFixed (m ! i) = endSlipped (m ! k) - endFixed (m ! k)"
      by (simp add: linked_def k(1))
    have "endFixed (m ! k) < f" using i(4)[of k] k(1) by simp
    with l1 v have "endSlipped (m ! k) < ?v" by linarith
    moreover have "endSlipped (m ! j) \<le> endSlipped (m ! k)"
      using ss k i(1) by (auto simp: sorted_iff_nth_mono)
    ultimately show ?thesis by linarith
  qed
  have "fixedBySlipped m ?v = Some (endStuckFixed (m ! i) - (endSlipped (m ! i) - ?v))"
    using ss i(1) _ below by (rule fixedBySlipped_at) simp
  with v have 2: "fixedBySlipped m ?v = Some f" by simp
  from 1 2 show ?thesis by blast
qed

lemma well_ordered_step:
  assumes "well_ordered m" "m \<noteq> []" "getMaxFixed m \<le> arg c"
  shows "well_ordered (apply_call m c)"
proof -
  from assms(2) obtain xs r where m: "m = xs @ [r]" by (cases m rule: rev_cases) auto
  from assms(3) m have "endFixed r \<le> arg c" by (simp add: snoc_simps)
  with assms(1) show ?thesis unfolding m
    by (cases c) (auto simp: snoc_simps well_ordered_def sorted_append new_SlipRange_def)
qed

lemma well_ordered_run:
  assumes "well_ordered m" "m \<noteq> []" "getMaxFixed m \<le> lo" "sorted (lo # map arg cs)"
  shows "well_ordered (run_calls m cs)"
  using assms
proof (induction cs arbitrary: m lo)
  case Nil
  then show ?case by (simp add: run_calls_Nil)
next
  case (Cons c cs)
  from Cons.prems have lo: "lo \<le> arg c" and srt: "sorted (arg c # map arg cs)" by auto
  have "well_ordered (apply_call m c)"
    using Cons.prems(1,2,3) lo by (intro well_ordered_step) auto
  moreover have "apply_call m c \<noteq> []" by (rule apply_call_nonempty)
  moreover have "getMaxFixed (apply_call m c) \<le> arg c"
    using getMaxFixed_apply_nonempty[OF Cons.prems(2), of c] by simp
  ultimately have "well_ordered (run_calls (apply_call m c) cs)"
    using srt by (rule Cons.IH)
  then show ?case by (simp add: run_calls_Cons)
qed

lemma monotone_map_run_nonempty:
  assumes "monotone_map m" "m \<noteq> []" "getMaxFixed m \<le> lo" "sorted (lo # map arg cs)"
  shows "monotone_map (run_calls m cs)"
  using assms
proof (induction cs arbitrary: m lo)
  case Nil
  then show ?case by (simp add: run_calls_Nil)
next
  case (Cons c cs)
  from Cons.prems have lo: "lo \<le> arg c" and srt: "sorted (arg c # map arg cs)" by auto
  have "monotone_map (apply_call m c)"
    using Cons.prems(1,3) lo by (intro monotone_map_step) auto
  moreover have "apply_call m c \<noteq> []" by (rule apply_call_nonempty)
  moreover have "getMaxFixed (apply_call m c) \<le> arg c"
    using getMaxFixed_apply_nonempty[OF Cons.prems(2), of c] by simp
  ultimately have "monotone_map (run_calls (apply_call m c) cs)"
    using srt by (rule Cons.IH)
  then show ?case by (simp add: run_calls_Cons)
qed

subsection \<open>The claims about SlipMap\<close>

text \<open>
  C1, counterexample: the calls \<open>addStuckRange(0)\<close>, \<open>addSlippedRange(3)\<close>,
  \<open>addStuckRange(3)\<close> have non-decreasing arguments and register the offset 3, yet
  \<open>slippedByFixed(3)\<close> is 0 and \<open>fixedBySlipped(0)\<close> is 0, the smallest fixed offset with
  that slipped offset, not 3.
\<close>

theorem roundtrip_counterexample:
  "(let cs = [AddStuckRange 0, AddSlippedRange 3, AddStuckRange 3];
        m = run_calls new_SlipMap cs in
     sorted (map arg cs) \<and> AddStuckRange 3 \<in> set cs
     \<and> slippedByFixed m 3 = Some 0 \<and> fixedBySlipped m 0 = Some 0)"
  by code_simp

text \<open>
  C1, as amended: for a sequence of calls on a fresh map whose arguments never decrease,
  in which every \<open>addStuckRange\<close> that directly follows an \<open>addSlippedRange\<close> has a
  strictly larger argument, and which does not open with \<open>addSlippedRange\<close> of a
  negative number: every offset \<open>f\<close> that some \<open>addStuckRange\<close> call of the sequence
  registered is mapped by \<open>slippedByFixed\<close> to a slipped offset that \<open>fixedBySlipped\<close>
  maps back to \<open>f\<close>; both lookups return.
\<close>

theorem roundtrip_registered:
  assumes "successively follows cs" "first_call_ok cs" "AddStuckRange f \<in> set cs"
  shows "\<exists>v. slippedByFixed (run_calls new_SlipMap cs) f = Some v
            \<and> fixedBySlipped (run_calls new_SlipMap cs) v = Some f"
proof -
  from assms(3) obtain c cs' where cs: "cs = c # cs'" by (cases cs) auto
  have K: "after_call (apply_call [] c) c" using assms(2) unfolding cs by (rule after_call_first)
  note run = covered_run[OF K assms(1)[unfolded cs], of f]
  have "covered (run_calls (apply_call [] c) cs') f"
  proof (cases "c = AddStuckRange f")
    case True
    then have "covered (apply_call [] c) f" using covered_first by blast
    with run show ?thesis by blast
  next
    case False
    with assms(3) cs have "AddStuckRange f \<in> set cs'" by simp
    with run show ?thesis by blast
  qed
  moreover from run have "monotone_map (run_calls (apply_call [] c) cs')"
    by (simp add: after_call_def)
  ultimately show ?thesis
    unfolding cs new_SlipMap_def run_calls_Cons by (intro roundtrip_covered)
qed

theorem roundtrip_registered_witness:
  "(let cs = [AddStuckRange 0, AddSlippedRange 3, AddStuckRange 5] in
     successively follows cs \<and> first_call_ok cs \<and> AddStuckRange 5 \<in> set cs
     \<and> (\<exists>v. slippedByFixed (run_calls new_SlipMap cs) 5 = Some v
            \<and> fixedBySlipped (run_calls new_SlipMap cs) v = Some 5))"
  using roundtrip_registered[of "[AddStuckRange 0, AddSlippedRange 3, AddStuckRange 5]" 5]
  by (simp add: Let_def)

text \<open>
  C3, counterexample: after \<open>addStuckRange(0)\<close> and \<open>addSlippedRange(3)\<close> the last
  range has \<open>endFixed \<noteq> endStuckFixed\<close>; \<open>addStuckRange(5)\<close> then opens the range
  \<open>(5, 5, 2)\<close>, whose \<open>endSlipped\<close> is not 5.
\<close>

theorem addStuckRange_counterexample:
  "(let m = run_calls new_SlipMap [AddStuckRange 0, AddSlippedRange 3] in
     m \<noteq> [] \<and> endFixed (last m) \<noteq> endStuckFixed (last m)
     \<and> addStuckRange 5 m = m @ [\<lparr>endStuckFixed = 5, endFixed = 5, endSlipped = 2\<rparr>]
     \<and> endSlipped (last (addStuckRange 5 m)) \<noteq> 5)"
  by code_simp

text \<open>
  C3, as amended: \<open>addStuckRange(endFixed)\<close> on an empty map opens a range whose
  three fields equal \<open>endFixed\<close>; on a map whose last range has \<open>endFixed\<close> equal to
  \<open>endStuckFixed\<close> it moves all three fields of that range by the same delta
  \<open>endFixed - old endFixed\<close> and leaves the earlier ranges alone; otherwise it appends a
  range with \<open>endStuckFixed\<close> and \<open>endFixed\<close> equal to the argument and \<open>endSlipped\<close>
  equal to the last range's \<open>endSlipped\<close> plus that delta.
\<close>

theorem addStuckRange_cases:
  "addStuckRange f m =
     (if m = [] then [\<lparr>endStuckFixed = f, endFixed = f, endSlipped = f\<rparr>]
      else if endFixed (last m) = endStuckFixed (last m) then
        butlast m @
          [\<lparr>endStuckFixed = endStuckFixed (last m) + (f - endFixed (last m)),
            endFixed = endFixed (last m) + (f - endFixed (last m)),
            endSlipped = endSlipped (last m) + (f - endFixed (last m))\<rparr>]
      else
        m @ [\<lparr>endStuckFixed = f, endFixed = f,
               endSlipped = endSlipped (last m) + (f - endFixed (last m))\<rparr>])"
  by (cases m rule: rev_cases) (simp_all add: snoc_simps new_SlipRange_def)

theorem addStuckRange_cases_witness:
  "addStuckRange 7 [\<lparr>endStuckFixed = 2, endFixed = 2, endSlipped = 1\<rparr>]
     = [\<lparr>endStuckFixed = 7, endFixed = 7, endSlipped = 6\<rparr>]
   \<and> addStuckRange 7 [\<lparr>endStuckFixed = 2, endFixed = 4, endSlipped = 1\<rparr>]
     = [\<lparr>endStuckFixed = 2, endFixed = 4, endSlipped = 1\<rparr>,
        \<lparr>endStuckFixed = 7, endFixed = 7, endSlipped = 4\<rparr>]"
  using addStuckRange_cases[of 7 "[\<lparr>endStuckFixed = 2, endFixed = 2, endSlipped = 1\<rparr>]"]
    addStuckRange_cases[of 7 "[\<lparr>endStuckFixed = 2, endFixed = 4, endSlipped = 1\<rparr>]"]
  by simp

text \<open>
  C5, the code at the failing input: \<open>addSlippedRange(3)\<close> as the only call on a fresh map
  leaves the single range \<open>(3, 0, 0)\<close>, whose \<open>endStuckFixed\<close> exceeds its \<open>endFixed\<close>.
\<close>

theorem first_addSlippedRange_exceeds_endFixed:
  "run_calls new_SlipMap [AddSlippedRange 3]
      = [\<lparr>endStuckFixed = 3, endFixed = 0, endSlipped = 0\<rparr>]
   \<and> endFixed (last (run_calls new_SlipMap [AddSlippedRange 3]))
       < endStuckFixed (last (run_calls new_SlipMap [AddSlippedRange 3]))"
  by code_simp

text \<open>
  C7, counterexample: the calls \<open>addSlippedRange(-2)\<close>, \<open>addStuckRange(-1)\<close>,
  \<open>addSlippedRange(5)\<close> have non-decreasing arguments and build the map
  \<open>[(-2, 0, 0), (-1, 5, -1)]\<close> with \<open>getMaxFixed() = 5\<close>; there \<open>slippedByFixed(0)\<close> is 0
  and \<open>slippedByFixed(1)\<close> is -1, although \<open>0 \<le> 1 \<le> 5\<close>. On the map built by no call at
  all \<open>getMaxFixed()\<close> is 0 and \<open>slippedByFixed(0)\<close> throws.
\<close>

theorem slippedByFixed_monotone_counterexample:
  "(let cs = [AddSlippedRange (- 2), AddStuckRange (- 1), AddSlippedRange 5];
        m = run_calls new_SlipMap cs
    in sorted (map arg cs)
       \<and> m = [\<lparr>endStuckFixed = - 2, endFixed = 0, endSlipped = 0\<rparr>,
              \<lparr>endStuckFixed = - 1, endFixed = 5, endSlipped = - 1\<rparr>]
       \<and> getMaxFixed m = 5
       \<and> slippedByFixed m 0 = Some 0 \<and> slippedByFixed m 1 = Some (- 1))
   \<and> getMaxFixed (run_calls new_SlipMap []) = 0
   \<and> slippedByFixed (run_calls new_SlipMap []) 0 = None"
  by code_simp

text \<open>
  C7, as amended: for a map built from a fresh one by a non-empty sequence of
  \<open>addStuckRange\<close>/\<open>addSlippedRange\<close> calls with non-decreasing arguments that does not
  open with \<open>addSlippedRange\<close> of a negative number, and for
  \<open>f1 \<le> f2 \<le> getMaxFixed()\<close>, both \<open>slippedByFixed(f1)\<close> and \<open>slippedByFixed(f2)\<close>
  return, and the first result is at most the second.
\<close>

theorem slippedByFixed_monotone:
  assumes "cs \<noteq> []" "sorted (map arg cs)" "first_call_ok cs"
    and "f1 \<le> f2" "f2 \<le> getMaxFixed (run_calls new_SlipMap cs)"
  shows "\<exists>s1 s2. slippedByFixed (run_calls new_SlipMap cs) f1 = Some s1
           \<and> slippedByFixed (run_calls new_SlipMap cs) f2 = Some s2 \<and> s1 \<le> s2"
proof -
  from assms(1) obtain c cs' where cs: "cs = c # cs'" by (cases cs) auto
  have mm: "monotone_map (apply_call [] c)"
    by (cases c) (simp_all add: snoc_simps monotone_map_def)
  have fc: "first_call_ok (c # cs')" using assms(3) cs by simp
  have srt: "sorted (arg c # map arg cs')" using assms(2) cs by simp
  have "monotone_map (run_calls (apply_call [] c) cs')"
    using mm apply_call_nonempty getMaxFixed_first_call[OF fc] srt
    by (rule monotone_map_run_nonempty)
  then have "monotone_map (run_calls new_SlipMap cs)"
    by (simp add: cs new_SlipMap_def run_calls_Cons)
  moreover have "run_calls new_SlipMap cs \<noteq> []"
    using assms(1) by (intro run_calls_nonempty) simp
  ultimately show ?thesis using assms(4,5) by (rule slippedByFixed_mono)
qed

theorem slippedByFixed_monotone_witness:
  "(let cs = [AddStuckRange 1, AddSlippedRange 2, AddStuckRange 4] in
     cs \<noteq> [] \<and> sorted (map arg cs) \<and> first_call_ok cs \<and> (1::int) \<le> 3
     \<and> 3 \<le> getMaxFixed (run_calls new_SlipMap cs)
     \<and> (\<exists>s1 s2. slippedByFixed (run_calls new_SlipMap cs) 1 = Some s1
           \<and> slippedByFixed (run_calls new_SlipMap cs) 3 = Some s2 \<and> s1 \<le> s2))"
  using slippedByFixed_monotone[of "[AddStuckRange 1, AddSlippedRange 2, AddStuckRange 4]" 1 3]
  by (simp add: run_calls_def new_SlipMap_def snoc_simps addStuckRange_def addSlippedRange_def
        new_SlipRange_def Let_def)

text \<open>
  C10: for \<open>n > 0\<close>, \<open>addSlippedRange(n)\<close> on an empty map leaves the single range
  with \<open>endStuckFixed = n\<close>, \<open>endFixed = 0\<close>, \<open>endSlipped = 0\<close>, so \<open>getMaxFixed()\<close> is 0,
  \<open>endStuckFixed\<close> exceeds \<open>endFixed\<close> and the map is not well ordered; a map that the
  \<open>Styler\<close> constructor initialised with \<open>addStuckRange(rootOffset)\<close> stays well ordered
  under any further calls whose arguments start at \<open>rootOffset\<close> and never decrease.
\<close>

theorem addSlippedRange_on_empty_map:
  "(0 < n \<longrightarrow>
      addSlippedRange n new_SlipMap = [\<lparr>endStuckFixed = n, endFixed = 0, endSlipped = 0\<rparr>]
      \<and> getMaxFixed (addSlippedRange n new_SlipMap) = 0
      \<and> endFixed (last (addSlippedRange n new_SlipMap))
          < endStuckFixed (last (addSlippedRange n new_SlipMap))
      \<and> \<not> well_ordered (addSlippedRange n new_SlipMap))
   \<and> (sorted (rootOffset # map arg cs) \<longrightarrow>
        well_ordered (run_calls (Styler_constructor_offsetMap rootOffset) cs))"
proof -
  have "well_ordered (run_calls (Styler_constructor_offsetMap rootOffset) cs)"
    if "sorted (rootOffset # map arg cs)"
    using _ _ _ that
    by (rule well_ordered_run)
       (simp_all add: Styler_constructor_offsetMap_def new_SlipMap_def snoc_simps
          well_ordered_def new_SlipRange_def)
  then show ?thesis
    by (simp add: new_SlipMap_def snoc_simps new_SlipRange_def well_ordered_def)
qed

theorem addSlippedRange_on_empty_map_witness:
  "(0 < (3::int)) \<and> sorted (0 # map arg [AddSlippedRange 2, AddStuckRange 5])
   \<and> getMaxFixed (addSlippedRange 3 new_SlipMap) = 0
   \<and> well_ordered (run_calls (Styler_constructor_offsetMap 0) [AddSlippedRange 2, AddStuckRange 5])"
  using addSlippedRange_on_empty_map[of 3 0 "[AddSlippedRange 2, AddStuckRange 5]"]
  by (simp add: getMaxFixed_def)
section \<open>Properties of the box stack\<close>

subsection \<open>nearestBlockStartOffset\<close>

lemma nearest_loop_boundary_walk:
  "int (length pre) = i + 1 \<Longrightarrow> nearest_loop (pre @ rest) box i = boundary_walk box (rev pre)"
proof (induction pre arbitrary: box i rest rule: rev_induct)
  case Nil
  then have "i = -1" by simp
  then show ?case by (subst nearest_loop.simps) simp
next
  case (snoc p xs)
  from snoc.prems have i: "i = int (length xs)" by simp
  have nth: "((xs @ [p]) @ rest) ! nat i = p" using i by (simp add: nth_append)
  have rec: "nearest_loop ((xs @ [p]) @ rest) p (i - 1) = boundary_walk p (rev xs)"
    using snoc.IH[of "i - 1" "p # rest" p] i by simp
  show ?case
    by (subst nearest_loop.simps) (use i nth rec in \<open>simp add: Let_def\<close>)
qed

lemma nearestBlockStartOffset_walk:
  "nearestBlockStartOffset stk box =
     (if \<not> atBlockStart (core box) then Inr (offset (core box))
      else boundary_walk box (ancestors stk box))"
proof (cases stk rule: rev_cases)
  case Nil
  have "nearest_loop [] box (- 1) = boundary_walk box []"
    using nearest_loop_boundary_walk[of "[]" "-1" "[]" box] by simp
  with Nil show ?thesis
    by (simp add: nearestBlockStartOffset_def ancestors_def)
next
  case (snoc xs p)
  have full: "nearest_loop (xs @ [p]) box (int (length xs)) = boundary_walk box (rev (xs @ [p]))"
    using nearest_loop_boundary_walk[of "xs @ [p]" "int (length xs)" "[]" box] by simp
  have top: "nearest_loop (xs @ [p]) box (int (length xs) - 1) = boundary_walk box (rev xs)"
    using nearest_loop_boundary_walk[of xs "int (length xs) - 1" "[p]" box] by simp
  show ?thesis
    using full top by (simp add: snoc nearestBlockStartOffset_def ancestors_def Let_def nth_append)
qed

lemma boundary_walk_error:
  "(\<exists>e. boundary_walk cur ps = Inl e) \<longleftrightarrow>
     (\<forall>p\<in>set ps. flowName (core p) = flowName (core cur) \<and> atBlockStart (core p)
        \<and> \<not> isRoot (core p))"
proof (induction ps arbitrary: cur)
  case Nil
  show ?case by simp
next
  case (Cons p ps)
  show ?case
  proof (cases "flowName (core p) = flowName (core cur) \<and> atBlockStart (core p) \<and> \<not> isRoot (core p)")
    case True
    then show ?thesis using Cons.IH[of p] by simp
  next
    case False
    then show ?thesis by auto
  qed
qed

lemma boundary_walk_error_msg:
  "boundary_walk cur ps = Inl e \<Longrightarrow> e = Error ''No block start offset found!''"
  by (induction ps arbitrary: cur) (auto split: if_splits)

text \<open>
  C6, counterexample: the root box of flow \<open>body\<close> at offset 0 is on the stack and a box
  of flow \<open>footnote\<close> at offset 5, at its block start, is on top of it. The first
  ancestor that breaks a condition is the root (it is in another flow), whose offset is
  0; the code returns 5, the offset of the box itself.
\<close>

theorem nearestBlockStartOffset_counterexample:
  "(let root = example_box 0 ''body'' 0 True True;
        box = example_box 1 ''footnote'' 5 True False
    in nearestBlockStartOffset [root, box] box = Inr 5
       \<and> spec_nearestBlockStartOffset [root, box] box = Inr 0)"
  by (simp add: Let_def nearestBlockStartOffset_def spec_nearestBlockStartOffset_def
        ancestors_def example_box_def nearest_loop.simps)

text \<open>
  C6, as amended: \<open>nearestBlockStartOffset(box)\<close> returns the box's own offset if the
  box is not at its block start. Otherwise it walks the ancestors upward (the stack from
  the top, without the top when that is the box itself): an ancestor in another flow
  ends the walk with the offset of the box reached just below it (the box itself or the
  last ancestor passed); an ancestor that is not at its block start, or is the root,
  ends it with that ancestor's offset. It throws \<open>Error("No block start offset found!")\<close>
  exactly when the box is at its block start and every ancestor is in the box's flow,
  at its block start and not the root; the two calls in \<open>styleUntil\<close> then fail with the
  same error.
\<close>

theorem nearestBlockStartOffset_boundary:
  "nearestBlockStartOffset stk box =
     (if \<not> atBlockStart (core box) then Inr (offset (core box))
      else boundary_walk box (ancestors stk box))
   \<and> ((\<exists>e. nearestBlockStartOffset stk box = Inl e) \<longleftrightarrow>
        atBlockStart (core box)
        \<and> (\<forall>p\<in>set (ancestors stk box).
              flowName (core p) = flowName (core box) \<and> atBlockStart (core p)
              \<and> \<not> isRoot (core p)))
   \<and> (\<forall>e. nearestBlockStartOffset stk box = Inl e \<longrightarrow>
          e = Error ''No block start offset found!''
          \<and> styleUntil_register_breakBefore stk box st = Inl e)
   \<and> (\<forall>e ab v ab'.
          nearestBlockStartOffset stk box = Inl e \<and> afterBox box = Some ab
          \<and> getBreakValue ctx ''before'' ab = Inr (v, ab') \<and> atBlockStart (core ab') \<longrightarrow>
          styleUntil_register_afterPseudo ctx stk box st = Inl e)"
proof -
  have 1: "nearestBlockStartOffset stk box =
     (if \<not> atBlockStart (core box) then Inr (offset (core box))
      else boundary_walk box (ancestors stk box))"
    by (rule nearestBlockStartOffset_walk)
  have 2: "(\<exists>e. nearestBlockStartOffset stk box = Inl e) \<longleftrightarrow>
        atBlockStart (core box)
        \<and> (\<forall>p\<in>set (ancestors stk box).
              flowName (core p) = flowName (core box) \<and> atBlockStart (core p)
              \<and> \<not> isRoot (core p))"
    unfolding 1 using boundary_walk_error[of box "ancestors stk box"] by simp
  have 3: "e = Error ''No block start offset found!''
          \<and> styleUntil_register_breakBefore stk box st = Inl e"
    if "nearestBlockStartOffset stk box = Inl e" for e
  proof -
    from that have "boundary_walk box (ancestors stk box) = Inl e"
      unfolding 1 by (simp split: if_splits)
    then have "e = Error ''No block start offset found!''" by (rule boundary_walk_error_msg)
    moreover have "styleUntil_register_breakBefore stk box st = Inl e"
      using that by (simp add: styleUntil_register_breakBefore_def)
    ultimately show ?thesis by simp
  qed
  have 4: "styleUntil_register_afterPseudo ctx stk box st = Inl e"
    if "nearestBlockStartOffset stk box = Inl e \<and> afterBox box = Some ab
          \<and> getBreakValue ctx ''before'' ab = Inr (v, ab') \<and> atBlockStart (core ab')"
    for e ab v ab'
    using that by (simp add: styleUntil_register_afterPseudo_def)
  show ?thesis
    apply (rule conjI)
     apply (rule 1)
    apply (rule conjI)
     apply (rule 2)
    apply (rule conjI)
     apply (intro allI impI)
     apply (erule 3)
    apply (intro allI impI)
    apply (erule 4)
    done
qed

theorem nearestBlockStartOffset_boundary_witness:
  "nearestBlockStartOffset
     [example_box 0 ''body'' 0 True True, example_box 1 ''body'' 3 True False,
      example_box 2 ''body'' 4 True False] (example_box 2 ''body'' 4 True False) = Inr 0
   \<and> nearestBlockStartOffset
       [example_box 1 ''body'' 3 True False, example_box 2 ''body'' 4 True False]
       (example_box 2 ''body'' 4 True False) = Inl (Error ''No block start offset found!'')
   \<and> styleUntil_register_breakBefore
       [example_box 1 ''body'' 3 True False, example_box 2 ''body'' 4 True False]
       (example_box 2 ''body'' 4 True False)
       \<lparr>flows = Map.empty, breakBeforeValues = Map.empty\<rparr>
      = Inl (Error ''No block start offset found!'')"
proof -
  let ?root = "example_box 0 ''body'' 0 True True"
  let ?inner = "example_box 1 ''body'' 3 True False"
  let ?box = "example_box 2 ''body'' 4 True False"
  let ?st = "\<lparr>flows = Map.empty, breakBeforeValues = Map.empty\<rparr>"
  have a: "nearestBlockStartOffset [?root, ?inner, ?box] ?box = Inr 0"
    using nearestBlockStartOffset_boundary[of "[?root, ?inner, ?box]" ?box ?st, THEN conjunct1]
    by (simp add: ancestors_def example_box_def)
  note t = nearestBlockStartOffset_boundary[of "[?inner, ?box]" ?box ?st]
  have b: "nearestBlockStartOffset [?inner, ?box] ?box = Inl (Error ''No block start offset found!'')"
    using t[THEN conjunct1] by (simp add: ancestors_def example_box_def)
  from t[THEN conjunct2, THEN conjunct2, THEN conjunct1, rule_format, OF b]
  have c: "styleUntil_register_breakBefore [?inner, ?box] ?box ?st
             = Inl (Error ''No block start offset found!'')" by simp
  from a b c show ?thesis by simp
qed

section \<open>Properties of boxes\<close>

subsection \<open>What the operations of a box keep\<close>

lemma core_update_core [simp]: "core (update_core f b) = f (core b)"
  by (cases b) simp

lemma beforeBox_update_core [simp]: "beforeBox (update_core f b) = beforeBox b"
  by (cases b) simp

lemma afterBox_update_core [simp]: "afterBox (update_core f b) = afterBox b"
  by (cases b) simp

lemma core_assign_beforeBox [simp]: "core (assign_beforeBox x b) = core b"
  by (cases b) simp

lemma core_assign_afterBox [simp]: "core (assign_afterBox x b) = core b"
  by (cases b) simp

lemma styleValue_keeps:
  assumes "styleValue ctx name d b = (v, b')"
  shows "hasBoxValue (core b') = hasBoxValue (core b)"
    and "isBlockValue (core b') = isBlockValue (core b)"
    and "isParentBoxDisplayed (core b') = isParentBoxDisplayed (core b)"
    and "isRoot (core b') = isRoot (core b)"
    and "style (core b') = style (core b)"
    and "flowChunk (core b') = flowChunk (core b)"
    and "atFlowStart (core b') = atFlowStart (core b)"
    and "breakBefore (core b') = breakBefore (core b)"
  using assms by (auto simp: styleValue_def Let_def split: option.splits)

lemmas displayValue_keeps = styleValue_keeps[of _ "''display''" "Some (Ident ''inline'')", folded displayValue_def]

lemma hasBox_memo:
  assumes "hasBox ctx b = (v, b')"
  shows "hasBoxValue (core b') = Some v" and "hasBox ctx' b' = (v, b')"
proof -
  show 1: "hasBoxValue (core b') = Some v"
    using assms
    by (auto simp: hasBox_def Let_def split: option.splits if_splits prod.splits)
  then show "hasBox ctx' b' = (v, b')" by (simp add: hasBox_def)
qed

lemma hasBox_keeps:
  assumes "hasBox ctx b = (v, b')"
  shows "isBlockValue (core b') = isBlockValue (core b)"
    and "isParentBoxDisplayed (core b') = isParentBoxDisplayed (core b)"
    and "isRoot (core b') = isRoot (core b)"
    and "style (core b') = style (core b)"
    and "flowChunk (core b') = flowChunk (core b)"
    and "atFlowStart (core b') = atFlowStart (core b)"
    and "breakBefore (core b') = breakBefore (core b)"
    and "hasBoxValue (core b) = Some w \<Longrightarrow> hasBoxValue (core b') = Some w"
  using assms
  by (auto simp: hasBox_def Let_def displayValue_keeps split: option.splits if_splits prod.splits)

lemma hasBox_first:
  assumes "hasBoxValue (core b) = None"
  shows "fst (hasBox ctx b) =
           (isParentBoxDisplayed (core b) \<and> fst (displayValue ctx b) \<noteq> Some (Ident ''none''))"
  using assms by (simp add: hasBox_def Let_def split: prod.splits)

lemma isBlock_memo:
  assumes "isBlock ctx b = Inr (v, b')"
  shows "isBlockValue (core b') = Some v" and "isBlock ctx' b' = Inr (v, b')"
proof -
  show 1: "isBlockValue (core b') = Some v"
    using assms
    by (auto simp: isBlock_def Let_def split: option.splits sum.splits prod.splits)
  then show "isBlock ctx' b' = Inr (v, b')" by (simp add: isBlock_def)
qed

lemma isBlock_keeps:
  assumes "isBlock ctx b = Inr (v, b')"
  shows "hasBoxValue (core b') = hasBoxValue (core b)"
    and "isParentBoxDisplayed (core b') = isParentBoxDisplayed (core b)"
    and "isRoot (core b') = isRoot (core b)"
    and "style (core b') = style (core b)"
    and "flowChunk (core b') = flowChunk (core b)"
    and "atFlowStart (core b') = atFlowStart (core b)"
    and "breakBefore (core b') = breakBefore (core b)"
    and "isBlockValue (core b) = Some w \<Longrightarrow> isBlockValue (core b') = Some w"
  using assms
  by (auto simp: isBlock_def Let_def displayValue_keeps styleValue_keeps
           split: option.splits sum.splits prod.splits)

lemma isBlock_first:
  assumes "isBlockValue (core b) = None" and "isBlock ctx b = Inr (v, b')"
  shows "Display_isBlock (fst (displayValue ctx b))
           (fst (styleValue ctx ''position'' None (snd (displayValue ctx b))))
           (fst (styleValue ctx ''float'' None
                  (snd (styleValue ctx ''position'' None (snd (displayValue ctx b))))))
           (isRoot (core b)) = Inr v"
  using assms
  by (auto simp: isBlock_def Let_def displayValue_keeps styleValue_keeps
           split: option.splits sum.splits prod.splits)

lemma getBreakValue_keeps:
  assumes "getBreakValue ctx edge b = Inr (v, b')"
  shows "hasBoxValue (core b') = hasBoxValue (core b)"
    and "isParentBoxDisplayed (core b') = isParentBoxDisplayed (core b)"
    and "flowChunk (core b') = flowChunk (core b)"
    and "atFlowStart (core b') = atFlowStart (core b)"
    and "breakBefore (core b') = breakBefore (core b)"
    and "\<exists>w. isBlockValue (core b') = Some w"
    and "isBlockValue (core b) = Some w \<Longrightarrow> isBlockValue (core b') = Some w"
  using assms
  by (auto simp: getBreakValue_def Let_def isBlock_keeps isBlock_memo styleValue_keeps
           split: sum.splits prod.splits if_splits)

subsection \<open>The chunk store under construction, push and pop\<close>

lemma chunk_frame_refl: "chunk_frame fc s s"
  by (simp add: chunk_frame_def)

lemma chunk_frame_trans: "chunk_frame fc s s1 \<Longrightarrow> chunk_frame fc s1 s2 \<Longrightarrow> chunk_frame fc s s2"
  unfolding chunk_frame_def
proof (intro allI conjI impI)
  fix r
  assume a: "\<forall>r. chunks s1 r = (chunks s r)\<lparr>chunkBreakBefore := chunkBreakBefore (chunks s1 r)\<rparr>
               \<and> (r \<noteq> fc \<longrightarrow> chunks s1 r = chunks s r)"
    and b: "\<forall>r. chunks s2 r = (chunks s1 r)\<lparr>chunkBreakBefore := chunkBreakBefore (chunks s2 r)\<rparr>
               \<and> (r \<noteq> fc \<longrightarrow> chunks s2 r = chunks s1 r)"
  from a have a1: "chunks s1 r = (chunks s r)\<lparr>chunkBreakBefore := chunkBreakBefore (chunks s1 r)\<rparr>"
    by blast
  from b have b1: "chunks s2 r = (chunks s1 r)\<lparr>chunkBreakBefore := chunkBreakBefore (chunks s2 r)\<rparr>"
    by blast
  show "chunks s2 r = (chunks s r)\<lparr>chunkBreakBefore := chunkBreakBefore (chunks s2 r)\<rparr>"
    by (subst b1, subst a1) simp
  show "chunks s2 r = chunks s r" if "r \<noteq> fc"
    using a b that by simp
qed

lemma chunk_frame_boxCount: "chunk_frame fc s (s\<lparr>boxCount := n\<rparr>)"
  by (simp add: chunk_frame_def)

lemma chunk_frame_assign: "chunk_frame fc s (assign_chunk_breakBefore fc v s)"
  by (simp add: chunk_frame_def assign_chunk_breakBefore_def)

lemma Box_resolve_breakBefore_frame:
  "Box_resolve_breakBefore ctx fc this s = Inr (box, s') \<Longrightarrow> chunk_frame fc s s'"
  by (auto simp: Box_resolve_breakBefore_def Let_def chunk_frame_refl chunk_frame_assign
           split: sum.splits prod.splits if_splits)

lemma size_before_style:
  "pseudoMap st = Some pm \<Longrightarrow> before pm = Some bst \<Longrightarrow> size bst < size st"
  by (cases st; cases pm) simp

lemma size_after_style:
  "pseudoMap st = Some pm \<Longrightarrow> after pm = Some ast \<Longrightarrow> size ast < size st"
  by (cases st; cases pm) simp

lemma new_Box_cases:
  assumes "new_Box ntc ctx s st off root fc atBS atFS pd = Inr (box, s')"
  obtains (plain) this3 where
      "Box_resolve_breakBefore ctx fc this3 (s\<lparr>boxCount := Suc (boxCount s)\<rparr>) = Inr (box, s')"
      "hasBoxValue (core this3) = hasBoxValue (core (snd (hasBox ctx (Box_fields s st off root fc atBS atFS pd))))"
      "isParentBoxDisplayed (core this3) = pd"
  | (before) pm bst block beforeBox0 s1 this3 where
      "pseudoMap st = Some pm" "before pm = Some bst"
      "new_Box ntc ctx (s\<lparr>boxCount := Suc (boxCount s)\<rparr>) bst off False fc block atFS True
         = Inr (beforeBox0, s1)"
      "Box_resolve_breakBefore ctx fc this3 s1 = Inr (box, s')"
      "hasBoxValue (core this3) = hasBoxValue (core (snd (hasBox ctx (Box_fields s st off root fc atBS atFS pd))))"
      "isParentBoxDisplayed (core this3) = pd"
proof -
  let ?b0 = "Box_fields s st off root fc atBS atFS pd"
  let ?s0 = "s\<lparr>boxCount := Suc (boxCount s)\<rparr>"
  obtain hb this1 where h: "hasBox ctx ?b0 = (hb, this1)" by (cases "hasBox ctx ?b0")
  have pd1: "isParentBoxDisplayed (core this1) = pd"
    using hasBox_keeps(2)[OF h] by (simp add: Box_fields_def)
  have keep: "hasBoxValue (core (Box_keep_beforeBox ntc ctx b bb)) = hasBoxValue (core b)
       \<and> isParentBoxDisplayed (core (Box_keep_beforeBox ntc ctx b bb)) = isParentBoxDisplayed (core b)"
    for b bb :: "'a Box"
    by (simp add: Box_keep_beforeBox_def Let_def split: prod.splits)
  from assms h have eq:
    "(case (if hb then
              (case pseudoMap st of
                 None \<Rightarrow> Inr (this1, ?s0)
               | Some pm \<Rightarrow>
                   (case before pm of
                      None \<Rightarrow> Inr (this1, ?s0)
                    | Some bst \<Rightarrow>
                        (case isBlock ctx this1 of
                           Inl e \<Rightarrow> Inl e
                         | Inr (block, this2) \<Rightarrow>
                             (case new_Box ntc ctx ?s0 bst off False fc block atFS True of
                                Inl e \<Rightarrow> Inl e
                              | Inr (beforeBox0, s1) \<Rightarrow>
                                  Inr (Box_keep_beforeBox ntc ctx this2 beforeBox0, s1)))))
            else Inr (this1, ?s0))
         of
           Inl e \<Rightarrow> Inl e
         | Inr (this3, s3) \<Rightarrow> Box_resolve_breakBefore ctx fc this3 s3) = Inr (box, s')"
    by (subst (asm) new_Box.simps) (simp add: Let_def)
  show thesis
  proof (cases "hb \<and> pseudoMap st \<noteq> None \<and> before (the (pseudoMap st)) \<noteq> None")
    case False
    then have "Box_resolve_breakBefore ctx fc this1 ?s0 = Inr (box, s')"
      using eq by (auto split: option.splits if_splits)
    then show thesis using h pd1 by (intro plain[of this1]) simp_all
  next
    case True
    then obtain pm bst where pm: "pseudoMap st = Some pm" "before pm = Some bst" and hb: hb
      by auto
    from eq pm hb obtain block this2 where blk: "isBlock ctx this1 = Inr (block, this2)"
      by (auto split: sum.splits)
    from eq pm hb blk obtain beforeBox0 s1 where
      nb: "new_Box ntc ctx ?s0 bst off False fc block atFS True = Inr (beforeBox0, s1)"
      by (auto split: sum.splits)
    from eq pm hb blk nb have
      fin: "Box_resolve_breakBefore ctx fc (Box_keep_beforeBox ntc ctx this2 beforeBox0) s1 = Inr (box, s')"
      by simp
    show thesis
      using pm nb fin
    proof (rule before)
      show "hasBoxValue (core (Box_keep_beforeBox ntc ctx this2 beforeBox0)) =
            hasBoxValue (core (snd (hasBox ctx ?b0)))"
        using keep[of this2 beforeBox0] isBlock_keeps(1)[OF blk] h by simp
      show "isParentBoxDisplayed (core (Box_keep_beforeBox ntc ctx this2 beforeBox0)) = pd"
        using keep[of this2 beforeBox0] isBlock_keeps(2)[OF blk] pd1 by simp
    qed
  qed
qed

lemma new_Box_frame:
  "new_Box ntc ctx s st off root fc atBS atFS pd = Inr (box, s') \<Longrightarrow> chunk_frame fc s s'"
proof (induction st arbitrary: s root atBS atFS pd box s' rule: measure_induct_rule[of size])
  case (less st)
  let ?s0 = "s\<lparr>boxCount := Suc (boxCount s)\<rparr>"
  have f0: "chunk_frame fc s ?s0" by (rule chunk_frame_boxCount)
  from less.prems show ?case
  proof (cases rule: new_Box_cases)
    case (plain this3)
    from plain(1) have "chunk_frame fc ?s0 s'" by (rule Box_resolve_breakBefore_frame)
    with f0 show ?thesis by (rule chunk_frame_trans)
  next
    case (before pm bst block beforeBox0 s1 this3)
    have "size bst < size st" using before(1,2) by (rule size_before_style)
    from less.IH[OF this before(3)] have f1: "chunk_frame fc ?s0 s1" .
    from before(4) have f2: "chunk_frame fc s1 s'" by (rule Box_resolve_breakBefore_frame)
    from f0 f1 f2 show ?thesis by (blast intro: chunk_frame_trans)
  qed
qed

lemma Box_keep_beforeBox_keeps:
  "hasBoxValue (core (Box_keep_beforeBox ntc ctx b bb)) = hasBoxValue (core b)"
  "isBlockValue (core (Box_keep_beforeBox ntc ctx b bb)) = isBlockValue (core b)"
  "flowChunk (core (Box_keep_beforeBox ntc ctx b bb)) = flowChunk (core b)"
  by (simp_all add: Box_keep_beforeBox_def Let_def split: prod.splits)

lemma Box_resolve_breakBefore_keeps:
  assumes "Box_resolve_breakBefore ctx fc b s = Inr (box, s')"
  shows "hasBoxValue (core box) = hasBoxValue (core b)"
    and "flowChunk (core box) = flowChunk (core b)"
    and "\<exists>w. isBlockValue (core box) = Some w"
  using assms
  by (auto simp: Box_resolve_breakBefore_def Let_def getBreakValue_keeps
           split: sum.splits prod.splits)

lemma hasBox_Box_fields:
  "hasBox ctx (Box_fields s st off root fc atBS atFS pd) = (v, b) \<Longrightarrow>
     v = (pd \<and> (case map_of (props st) ''display'' of
                    Some cv \<Rightarrow> cv ctx ''display''
                  | None \<Rightarrow> Ident ''inline'') \<noteq> Ident ''none'')
     \<and> flowChunk (core b) = fc"
  by (auto simp: hasBox_def Box_fields_def displayValue_def styleValue_def Let_def
           split: option.splits if_splits)

lemma new_Box_result:
  assumes "new_Box ntc ctx s st off root fc atBS atFS pd = Inr (box, s')"
  shows "hasBoxValue (core box) =
           Some (pd \<and> (case map_of (props st) ''display'' of
                          Some cv \<Rightarrow> cv ctx ''display''
                        | None \<Rightarrow> Ident ''inline'') \<noteq> Ident ''none'')"
    and "\<exists>w. isBlockValue (core box) = Some w"
    and "flowChunk (core box) = fc"
proof -
  let ?b0 = "Box_fields s st off root fc atBS atFS pd"
  let ?s0 = "s\<lparr>boxCount := Suc (boxCount s)\<rparr>"
  obtain hb this1 where h: "hasBox ctx ?b0 = (hb, this1)" by (cases "hasBox ctx ?b0")
  note hv = hasBox_memo(1)[OF h] hasBox_Box_fields[OF h]
  have "\<exists>this3 s3. Box_resolve_breakBefore ctx fc this3 s3 = Inr (box, s')
          \<and> hasBoxValue (core this3) = Some hb \<and> flowChunk (core this3) = fc"
  proof -
    from assms h have eq:
      "(case (if hb then
                (case pseudoMap st of
                   None \<Rightarrow> Inr (this1, ?s0)
                 | Some pm \<Rightarrow>
                     (case before pm of
                        None \<Rightarrow> Inr (this1, ?s0)
                      | Some bst \<Rightarrow>
                          (case isBlock ctx this1 of
                             Inl e \<Rightarrow> Inl e
                           | Inr (block, this2) \<Rightarrow>
                               (case new_Box ntc ctx ?s0 bst off False fc block atFS True of
                                  Inl e \<Rightarrow> Inl e
                                | Inr (beforeBox0, s1) \<Rightarrow>
                                    Inr (Box_keep_beforeBox ntc ctx this2 beforeBox0, s1)))))
              else Inr (this1, ?s0))
           of
             Inl e \<Rightarrow> Inl e
           | Inr (this3, s3) \<Rightarrow> Box_resolve_breakBefore ctx fc this3 s3) = Inr (box, s')"
      by (subst (asm) new_Box.simps) (simp add: Let_def)
    show ?thesis
    proof (cases "hb \<and> pseudoMap st \<noteq> None \<and> before (the (pseudoMap st)) \<noteq> None")
      case False
      then have "Box_resolve_breakBefore ctx fc this1 ?s0 = Inr (box, s')"
        using eq by (auto split: option.splits if_splits)
      with hv show ?thesis by blast
    next
      case True
      then obtain pm bst where pm: "pseudoMap st = Some pm" "before pm = Some bst" and hb: hb
        by auto
      from eq pm hb obtain block this2 where blk: "isBlock ctx this1 = Inr (block, this2)"
        by (auto split: sum.splits)
      from eq pm hb blk obtain beforeBox0 s1 where
        nb: "new_Box ntc ctx ?s0 bst off False fc block atFS True = Inr (beforeBox0, s1)"
        by (auto split: sum.splits)
      from eq pm hb blk nb have
        "Box_resolve_breakBefore ctx fc (Box_keep_beforeBox ntc ctx this2 beforeBox0) s1 = Inr (box, s')"
        by simp
      moreover have "hasBoxValue (core (Box_keep_beforeBox ntc ctx this2 beforeBox0)) = Some hb"
        using hv isBlock_keeps(1)[OF blk] by (simp add: Box_keep_beforeBox_keeps)
      moreover have "flowChunk (core (Box_keep_beforeBox ntc ctx this2 beforeBox0)) = fc"
        using hv isBlock_keeps(5)[OF blk] by (simp add: Box_keep_beforeBox_keeps)
      ultimately show ?thesis by blast
    qed
  qed
  then obtain this3 s3 where r: "Box_resolve_breakBefore ctx fc this3 s3 = Inr (box, s')"
    and h3: "hasBoxValue (core this3) = Some hb" and f3: "flowChunk (core this3) = fc" by blast
  show "hasBoxValue (core box) =
           Some (pd \<and> (case map_of (props st) ''display'' of
                          Some cv \<Rightarrow> cv ctx ''display''
                        | None \<Rightarrow> Ident ''inline'') \<noteq> Ident ''none'')"
    using Box_resolve_breakBefore_keeps(1)[OF r] h3 hv by simp
  show "\<exists>w. isBlockValue (core box) = Some w"
    by (rule Box_resolve_breakBefore_keeps(3)[OF r])
  show "flowChunk (core box) = fc"
    using Box_resolve_breakBefore_keeps(2)[OF r] f3 by simp
qed

lemma buildAfterPseudoElementBox_frame:
  assumes "buildAfterPseudoElementBox ntc ctx s off atBS atFS b = Inr (b', s')"
  shows "chunk_frame (flowChunk (core b)) s s'" and "flowChunk (core b') = flowChunk (core b)"
    and "hasBoxValue (core b) = Some w \<Longrightarrow> hasBoxValue (core b') = Some w"
    and "isBlockValue (core b') = isBlockValue (core b)"
proof -
  obtain hb b1 where h: "hasBox ctx b = (hb, b1)" by (cases "hasBox ctx b")
  note k = hasBox_keeps[OF h]
  from assms h have eq:
    "(if hb then
           (case pseudoMap (style (core b1)) of
              None \<Rightarrow> Inr (b1, s)
            | Some pm \<Rightarrow>
                (case after pm of
                   None \<Rightarrow> Inr (b1, s)
                 | Some ast \<Rightarrow>
                     (case new_Box ntc ctx s ast off False (flowChunk (core b1)) atBS atFS True of
                        Inl e \<Rightarrow> Inl e
                      | Inr (afterBox0, s1) \<Rightarrow>
                          (let (afterContent, afterBox1) =
                                 styleValue ctx ''content'' None afterBox0
                           in if ntc afterContent then
                                Inr (assign_afterBox (Some afterBox1) b1, s1)
                              else Inr (b1, s1)))))
         else Inr (b1, s)) = Inr (b', s')"
    by (simp add: buildAfterPseudoElementBox_def)
  have "core b' = core b1 \<and> chunk_frame (flowChunk (core b)) s s'"
  proof (cases "hb \<and> pseudoMap (style (core b1)) \<noteq> None
                  \<and> after (the (pseudoMap (style (core b1)))) \<noteq> None")
    case False
    with eq have "b' = b1" "s' = s" by (auto split: option.splits if_splits)
    then show ?thesis by (simp add: chunk_frame_refl)
  next
    case True
    then obtain pm ast where pm: "pseudoMap (style (core b1)) = Some pm" "after pm = Some ast"
      and hb: hb by auto
    from eq pm hb obtain afterBox0 s1 where
      nb: "new_Box ntc ctx s ast off False (flowChunk (core b1)) atBS atFS True = Inr (afterBox0, s1)"
      by (auto split: sum.splits)
    from eq pm hb nb have "core b' = core b1" "s' = s1"
      by (auto simp: Let_def split: prod.splits if_splits)
    moreover from new_Box_frame[OF nb] have "chunk_frame (flowChunk (core b)) s s1"
      using k(5) by simp
    ultimately show ?thesis by simp
  qed
  then have c: "core b' = core b1" and f: "chunk_frame (flowChunk (core b)) s s'" by simp_all
  show "chunk_frame (flowChunk (core b)) s s'" by (rule f)
  show "flowChunk (core b') = flowChunk (core b)" using c k(5) by simp
  show "hasBoxValue (core b) = Some w \<Longrightarrow> hasBoxValue (core b') = Some w" using c k(8) by simp
  show "isBlockValue (core b') = isBlockValue (core b)" using c k(1) by simp
qed

lemma push_frame:
  assumes "push ntc ctx s bs st off root newFlowChunk = Inr (box, bs', s')"
  shows "chunk_frame (flowChunk (core box)) s s'"
proof -
  let ?fcr = "(case newFlowChunk of
              Some nfc \<Rightarrow> Inr nfc
            | None \<Rightarrow>
                (case lastBox (stack bs) of
                   None \<Rightarrow> Inl TypeError
                 | Some lb \<Rightarrow> Inr (flowChunk (core lb))))"
  from assms obtain fc where fc: "?fcr = Inr fc"
    by (cases ?fcr) (simp_all add: push_def Let_def)
  obtain pd stack1 where d: "isCurrentBoxDisplayed ctx (stack bs) = (pd, stack1)"
    by (cases "isCurrentBoxDisplayed ctx (stack bs)")
  let ?afs = "stackAtFlowStart bs \<or> newFlowChunk \<noteq> None"
  from assms fc d obtain box0 s1 where
    nb: "new_Box ntc ctx s st off root fc (?afs \<or> stackAtBlockStart bs) ?afs pd = Inr (box0, s1)"
    by (cases "new_Box ntc ctx s st off root fc (?afs \<or> stackAtBlockStart bs) ?afs pd")
       (auto simp: push_def Let_def)
  obtain hb box1 where h: "hasBox ctx box0 = (hb, box1)" by (cases "hasBox ctx box0")
  let ?blk = "(if hb \<and> beforeBox box1 = None then isBlock ctx box1 else Inr (False, box1))"
  from assms fc d nb h obtain block box2 where b2: "?blk = Inr (block, box2)"
    by (cases ?blk) (auto simp: push_def Let_def)
  from assms fc d nb h b2 have res: "box = box2" "s' = s1"
    by (simp_all add: push_def Let_def)
  have "flowChunk (core box2) = flowChunk (core box1)"
    using b2 by (auto split: if_splits dest: isBlock_keeps(5))
  also have "\<dots> = flowChunk (core box0)" using hasBox_keeps(5)[OF h] .
  also have "\<dots> = fc" using new_Box_result(3)[OF nb] .
  finally have "flowChunk (core box) = fc" using res by simp
  with new_Box_frame[OF nb] res show ?thesis by simp
qed

lemma pop_frame:
  assumes "pop ntc ctx s bs off = Inr (box, bs', s')"
  shows "chunk_frame (flowChunk (core box)) s s'"
proof -
  from assms obtain top where top: "lastBox (stack bs) = Some top"
    by (cases "lastBox (stack bs)") (simp_all add: pop_def)
  let ?ba = "buildAfterPseudoElementBox ntc ctx s off (stackAtBlockStart bs) (stackAtFlowStart bs) top"
  from assms top obtain box1 s1 where ba: "?ba = Inr (box1, s1)"
    by (cases ?ba) (auto simp: pop_def Let_def)
  note f1 = buildAfterPseudoElementBox_frame(1,2)[OF ba]
  let ?fold = "(if stackAtFlowStart bs then
                        (case afterBox box1 of
                           None \<Rightarrow> Inr (box1, s1)
                         | Some ab \<Rightarrow>
                             (case getBreakValue ctx ''before'' ab of
                                Inl e \<Rightarrow> Inl e
                              | Inr (breakBefore', ab') \<Rightarrow>
                                  Inr (assign_afterBox (Some ab') box1,
                                       assign_chunk_breakBefore (flowChunk (core box1))
                                         (resolveEffectiveBreakValue
                                            (chunkBreakBefore (chunks s1 (flowChunk (core box1))))
                                            breakBefore') s1)))
                      else Inr (box1, s1))"
  from assms top ba obtain box2 s2 where fo: "?fold = Inr (box2, s2)"
    by (cases ?fold) (auto simp: pop_def Let_def)
  have f2: "chunk_frame (flowChunk (core box1)) s1 s2" and c2: "core box2 = core box1"
    using fo
    by (auto simp: chunk_frame_refl chunk_frame_assign split: if_splits option.splits sum.splits)
  have s': "s' = s2" and c: "flowChunk (core box) = flowChunk (core box2)"
    using assms top ba fo
    by (auto simp: pop_def Let_def split: option.splits if_splits prod.splits
             dest: hasBox_keeps(5))
  from f1 f2 c2 have "chunk_frame (flowChunk (core top)) s s2"
    by (auto intro: chunk_frame_trans)
  with s' c c2 f1(2) show ?thesis by simp
qed

lemma context_sensitive_box:
  "new_Box (\<lambda>v. False) (0::nat) example_store context_sensitive_style 0 False 0 True True True
     = Inr (Box \<lparr>style = context_sensitive_style, offset = 0, isRoot = False, flowChunk = 0,
                  atBlockStart = True, atFlowStart = True, isParentBoxDisplayed = True,
                  ref = 0, flowName = ''body'', isBlockValue = Some True,
                  hasBoxValue = Some True,
                  styleValues = [(''break-before'', None), (''float'', None),
                                 (''position'', None), (''display'', Some (Ident ''block''))],
                  breakBefore = None\<rparr> None None,
            example_store\<lparr>boxCount := 1\<rparr>)"
  by (simp add: new_Box.simps Box_fields_def hasBox_def displayValue_def styleValue_def
        isBlock_def Display_isBlock_def getComputedDislayValue_def isAbsolutelyPositioned_def
        getBreakValue_def Box_resolve_breakBefore_def break_defs assign_chunk_breakBefore_def
        example_store_def example_chunk_def context_sensitive_style_def Let_def)

lemma page_break_box_explicit:
  "new_Box (\<lambda>v. False) () example_store page_break_style 0 False 0 True True True
     = Inr (Box \<lparr>style = page_break_style, offset = 0, isRoot = False, flowChunk = 0,
                  atBlockStart = True, atFlowStart = True, isParentBoxDisplayed = True,
                  ref = 0, flowName = ''body'', isBlockValue = Some True,
                  hasBoxValue = Some True,
                  styleValues = [(''break-before'', Some (Ident ''page'')), (''float'', None),
                                 (''position'', None), (''display'', Some (Ident ''block''))],
                  breakBefore = Some ''page''\<rparr> None None,
            assign_chunk_breakBefore 0 (Some ''page'') (example_store\<lparr>boxCount := 1\<rparr>))"
  by (simp add: new_Box.simps Box_fields_def hasBox_def displayValue_def styleValue_def
        isBlock_def Display_isBlock_def getComputedDislayValue_def isAbsolutelyPositioned_def
        getBreakValue_def Box_resolve_breakBefore_def break_defs assign_chunk_breakBefore_def
        example_store_def example_chunk_def page_break_style_def Let_def)

subsection \<open>The claims about boxes and flow chunks\<close>

text \<open>
  C4, counterexample: a block box with \<open>break-before: page\<close> is constructed at the flow
  start of a chunk whose inherited break-before is \<^verbatim>\<open>null\<close>; after the constructor has
  returned, the chunk's inherited break-before is \<open>page\<close>.
\<close>

theorem flowChunk_breakBefore_counterexample:
  "(case new_Box (\<lambda>v. False) () example_store page_break_style 0 False 0 True True True of
      Inl e \<Rightarrow> False
    | Inr (box, s') \<Rightarrow>
        chunkBreakBefore (chunks example_store 0) = None
        \<and> chunkBreakBefore (chunks s' 0) = Some ''page'')"
  unfolding page_break_box_explicit
  by (simp add: assign_chunk_breakBefore_def example_store_def example_chunk_def)

text \<open>
  C4, as amended: the constructor of \<open>Box\<close>, \<open>buildAfterPseudoElementBox\<close>,
  \<open>BoxStack.push\<close> and \<open>BoxStack.pop\<close>, whenever they return, leave every field of every
  flow chunk other than the inherited break-before as it was (flow name, originating
  node, start offset, priority, linger, exclusive, repeated, last), and leave every
  chunk other than the one the box belongs to entirely as it was. The inherited
  break-before of the box's own chunk may be rewritten.
\<close>

theorem flowChunk_frame:
  "(new_Box ntc ctx s st off root fc atBS atFS pd = Inr (box, s') \<longrightarrow> chunk_frame fc s s')
   \<and> (buildAfterPseudoElementBox ntc ctx s off atBS atFS b = Inr (b1, s1) \<longrightarrow>
        chunk_frame (flowChunk (core b)) s s1)
   \<and> (push ntc ctx s bs st off root newFlowChunk = Inr (box2, bs2, s2) \<longrightarrow>
        chunk_frame (flowChunk (core box2)) s s2)
   \<and> (pop ntc ctx s bs off = Inr (box3, bs3, s3) \<longrightarrow>
        chunk_frame (flowChunk (core box3)) s s3)"
  using new_Box_frame[of ntc ctx s st off root fc atBS atFS pd box s']
    buildAfterPseudoElementBox_frame(1)[of ntc ctx s off atBS atFS b b1 s1]
    push_frame[of ntc ctx s bs st off root newFlowChunk box2 bs2 s2]
    pop_frame[of ntc ctx s bs off box3 bs3 s3]
  by blast

theorem flowChunk_frame_witness:
  "new_Box (\<lambda>v. False) () example_store page_break_style 0 False 0 True True True
     = Inr (Box \<lparr>style = page_break_style, offset = 0, isRoot = False, flowChunk = 0,
                  atBlockStart = True, atFlowStart = True, isParentBoxDisplayed = True,
                  ref = 0, flowName = ''body'', isBlockValue = Some True,
                  hasBoxValue = Some True,
                  styleValues = [(''break-before'', Some (Ident ''page'')), (''float'', None),
                                 (''position'', None), (''display'', Some (Ident ''block''))],
                  breakBefore = Some ''page''\<rparr> None None,
            assign_chunk_breakBefore 0 (Some ''page'') (example_store\<lparr>boxCount := 1\<rparr>))
   \<and> chunk_frame 0 example_store
        (assign_chunk_breakBefore 0 (Some ''page'') (example_store\<lparr>boxCount := 1\<rparr>))"
proof -
  note nb = page_break_box_explicit
  from flowChunk_frame[of "\<lambda>v. False" "()" example_store page_break_style 0 False 0 True True
      True _ "assign_chunk_breakBefore 0 (Some ''page'') (example_store\<lparr>boxCount := 1\<rparr>)",
      THEN conjunct1, rule_format, OF nb]
  have "chunk_frame 0 example_store
        (assign_chunk_breakBefore 0 (Some ''page'') (example_store\<lparr>boxCount := 1\<rparr>))" .
  with nb show ?thesis by (rule conjI)
qed

text \<open>
  C8: \<open>hasBox()\<close> and \<open>isBlock()\<close> are computed at most once. A call stores its answer
  in the box, and every later call, in whatever state the context then is, returns that
  answer and leaves the box as it is; a first call of \<open>hasBox()\<close> answers from
  \<open>isParentBoxDisplayed\<close> and the box's own \<open>display\<close> value, a first call of \<open>isBlock()\<close>
  from the box's own \<open>display\<close>, \<open>position\<close>, \<open>float\<close> and \<open>isRoot\<close>. The constructor
  already makes both calls, so a constructed box answers \<open>hasBox()\<close> from the
  \<open>isParentBoxDisplayed\<close> it was constructed with and the \<open>display\<close> value at that
  time; \<open>styleValue\<close> and \<open>buildAfterPseudoElementBox\<close> keep both stored answers. None
  of these operations reads the stack, so what has become of the ancestors since is
  immaterial.
\<close>

theorem hasBox_isBlock_memoized:
  "(hasBox ctx b = (v, b1) \<longrightarrow>
      hasBoxValue (core b1) = Some v \<and> hasBox ctx' b1 = (v, b1)
      \<and> (hasBoxValue (core b) = None \<longrightarrow>
           v = (isParentBoxDisplayed (core b)
                \<and> fst (displayValue ctx b) \<noteq> Some (Ident ''none''))))
   \<and> (isBlock ctx b = Inr (w, b2) \<longrightarrow>
        isBlockValue (core b2) = Some w \<and> isBlock ctx' b2 = Inr (w, b2)
        \<and> (isBlockValue (core b) = None \<longrightarrow>
             Display_isBlock (fst (displayValue ctx b))
               (fst (styleValue ctx ''position'' None (snd (displayValue ctx b))))
               (fst (styleValue ctx ''float'' None
                       (snd (styleValue ctx ''position'' None (snd (displayValue ctx b))))))
               (isRoot (core b)) = Inr w))
   \<and> (new_Box ntc ctx s st off root fc atBS atFS pd = Inr (box, s') \<longrightarrow>
        hasBox ctx' box =
          (pd \<and> (case map_of (props st) ''display'' of
                    Some cv \<Rightarrow> cv ctx ''display''
                  | None \<Rightarrow> Ident ''inline'') \<noteq> Ident ''none'', box)
        \<and> (\<exists>w'. isBlock ctx' box = Inr (w', box)))
   \<and> (styleValue ctx name d b = (x, b3) \<longrightarrow>
        hasBoxValue (core b3) = hasBoxValue (core b)
        \<and> isBlockValue (core b3) = isBlockValue (core b))
   \<and> (buildAfterPseudoElementBox ntc ctx s off atBS atFS b = Inr (b4, s4) \<longrightarrow>
        (hasBoxValue (core b) = Some v \<longrightarrow> hasBoxValue (core b4) = Some v)
        \<and> isBlockValue (core b4) = isBlockValue (core b))"
proof (intro conjI impI)
  assume h: "hasBox ctx b = (v, b1)"
  show "hasBoxValue (core b1) = Some v" by (rule hasBox_memo(1)[OF h])
  show "hasBox ctx' b1 = (v, b1)" by (rule hasBox_memo(2)[OF h])
  show "v = (isParentBoxDisplayed (core b) \<and> fst (displayValue ctx b) \<noteq> Some (Ident ''none''))"
    if "hasBoxValue (core b) = None"
    using hasBox_first[OF that, of ctx] h by simp
next
  assume h: "isBlock ctx b = Inr (w, b2)"
  show "isBlockValue (core b2) = Some w" by (rule isBlock_memo(1)[OF h])
  show "isBlock ctx' b2 = Inr (w, b2)" by (rule isBlock_memo(2)[OF h])
  show "Display_isBlock (fst (displayValue ctx b))
               (fst (styleValue ctx ''position'' None (snd (displayValue ctx b))))
               (fst (styleValue ctx ''float'' None
                       (snd (styleValue ctx ''position'' None (snd (displayValue ctx b))))))
               (isRoot (core b)) = Inr w"
    if "isBlockValue (core b) = None"
    using that h by (rule isBlock_first)
next
  assume h: "new_Box ntc ctx s st off root fc atBS atFS pd = Inr (box, s')"
  show "hasBox ctx' box =
          (pd \<and> (case map_of (props st) ''display'' of
                    Some cv \<Rightarrow> cv ctx ''display''
                  | None \<Rightarrow> Ident ''inline'') \<noteq> Ident ''none'', box)"
    using new_Box_result(1)[OF h] by (simp add: hasBox_def)
  show "\<exists>w'. isBlock ctx' box = Inr (w', box)"
    using new_Box_result(2)[OF h] by (auto simp: isBlock_def)
next
  assume h: "styleValue ctx name d b = (x, b3)"
  show "hasBoxValue (core b3) = hasBoxValue (core b)" by (rule styleValue_keeps(1)[OF h])
  show "isBlockValue (core b3) = isBlockValue (core b)" by (rule styleValue_keeps(2)[OF h])
next
  assume h: "buildAfterPseudoElementBox ntc ctx s off atBS atFS b = Inr (b4, s4)"
  show "hasBoxValue (core b4) = Some v" if "hasBoxValue (core b) = Some v"
    using h that by (rule buildAfterPseudoElementBox_frame(3))
  show "isBlockValue (core b4) = isBlockValue (core b)"
    using h by (rule buildAfterPseudoElementBox_frame(4))
qed

theorem hasBox_isBlock_memoized_witness:
  "(let box = Box \<lparr>style = context_sensitive_style, offset = 0, isRoot = False, flowChunk = 0,
                  atBlockStart = True, atFlowStart = True, isParentBoxDisplayed = True,
                  ref = 0, flowName = ''body'', isBlockValue = Some True,
                  hasBoxValue = Some True,
                  styleValues = [(''break-before'', None), (''float'', None),
                                 (''position'', None), (''display'', Some (Ident ''block''))],
                  breakBefore = None\<rparr> None None
    in new_Box (\<lambda>v. False) (0::nat) example_store context_sensitive_style 0 False 0
         True True True = Inr (box, example_store\<lparr>boxCount := 1\<rparr>)
       \<and> hasBox 1 box = (True, box)
       \<and> fst (displayValue 1 (Box_fields example_store context_sensitive_style 0 False 0
                                 True True True)) = Some (Ident ''none''))"
proof -
  let ?box = "Box \<lparr>style = context_sensitive_style, offset = 0, isRoot = False, flowChunk = 0,
                  atBlockStart = True, atFlowStart = True, isParentBoxDisplayed = True,
                  ref = 0, flowName = ''body'', isBlockValue = Some True,
                  hasBoxValue = Some True,
                  styleValues = [(''break-before'', None), (''float'', None),
                                 (''position'', None), (''display'', Some (Ident ''block''))],
                  breakBefore = None\<rparr> None None"
  note nb = context_sensitive_box
  from hasBox_isBlock_memoized[of 0 ?box _ _ 1 _ _ "\<lambda>v. False" example_store
      context_sensitive_style 0 False 0 True True True ?box "example_store\<lparr>boxCount := 1\<rparr>",
      THEN conjunct2, THEN conjunct2, THEN conjunct1, rule_format, OF nb]
  have hb: "hasBox 1 ?box = (True, ?box)"
    by (simp add: context_sensitive_style_def)
  have dv: "fst (displayValue 1 (Box_fields example_store context_sensitive_style 0 False 0
                                 True True True)) = Some (Ident ''none'')"
    by (simp add: displayValue_def styleValue_def Box_fields_def context_sensitive_style_def Let_def)
  from nb hb dv show ?thesis by (simp add: Let_def)
qed

section \<open>Properties of the forced break offsets\<close>

lemma registerForcedBreakOffset_flows:
  assumes "registerForcedBreakOffset breakValue off name st = Inr st'"
    and "flows st g = Some fl"
  shows "\<exists>fl'. flows st' g = Some fl'
           \<and> flow_name fl' = flow_name fl \<and> parentFlowName fl' = parentFlowName fl
           \<and> forcedBreakOffsets fl' =
               (if g = name \<and> isForcedBreakValue breakValue
                   \<and> (forcedBreakOffsets fl = [] \<or> last (forcedBreakOffsets fl) < off)
                then forcedBreakOffsets fl @ [off] else forcedBreakOffsets fl)"
  using assms
  by (auto simp: registerForcedBreakOffset_def Let_def last_conv_nth
           split: if_splits option.splits)

lemma registerForcedBreakOffset_returns:
  "flows st name \<noteq> None \<or> \<not> isForcedBreakValue breakValue
     \<Longrightarrow> \<exists>st'. registerForcedBreakOffset breakValue off name st = Inr st'"
  by (auto simp: registerForcedBreakOffset_def Let_def split: option.splits)

lemma strictly_increasing_snoc:
  "sorted_wrt (<) xs \<Longrightarrow> xs = [] \<or> last xs < (x::int) \<Longrightarrow> sorted_wrt (<) (xs @ [x])"
proof -
  assume s: "sorted_wrt (<) xs" and l: "xs = [] \<or> last xs < x"
  have "y < x" if "y \<in> set xs" for y
  proof -
    from that have ne: "xs \<noteq> []" by auto
    with l have lx: "last xs < x" by simp
    from that obtain i where i: "i < length xs" "xs ! i = y" by (auto simp: in_set_conv_nth)
    have "y \<le> last xs"
    proof (cases "i = length xs - 1")
      case True
      with i ne show ?thesis by (simp add: last_conv_nth)
    next
      case False
      with i have "i < length xs - 1" by simp
      with s i ne have "xs ! i < xs ! (length xs - 1)"
        by (auto simp: sorted_wrt_iff_nth_less)
      with i ne show ?thesis by (simp add: last_conv_nth)
    qed
    with lx show ?thesis by simp
  qed
  with s show ?thesis by (simp add: sorted_wrt_append)
qed

lemma register_all_flows:
  assumes "register_all st rs = Inr st'" and "flows st g = Some fl"
    and "sorted_wrt (<) (forcedBreakOffsets fl)"
  shows "\<exists>fl' ext. flows st' g = Some fl'
           \<and> forcedBreakOffsets fl' = forcedBreakOffsets fl @ ext
           \<and> sorted_wrt (<) (forcedBreakOffsets fl')"
  using assms
proof (induction rs arbitrary: st fl)
  case Nil
  then show ?case by simp
next
  case (Cons r rs)
  obtain bv off name where r: "r = Register bv off name" by (cases r)
  from Cons.prems(1) r obtain st1 where
    st1: "registerForcedBreakOffset bv off name st = Inr st1" and
    rest: "register_all st1 rs = Inr st'"
    by (auto split: sum.splits)
  from registerForcedBreakOffset_flows[OF st1 Cons.prems(2)] obtain fl1 where
    fl1: "flows st1 g = Some fl1" and
    offs: "forcedBreakOffsets fl1 =
               (if g = name \<and> isForcedBreakValue bv
                   \<and> (forcedBreakOffsets fl = [] \<or> last (forcedBreakOffsets fl) < off)
                then forcedBreakOffsets fl @ [off] else forcedBreakOffsets fl)"
    by blast
  have srt1: "sorted_wrt (<) (forcedBreakOffsets fl1)"
    unfolding offs using Cons.prems(3) by (simp add: strictly_increasing_snoc)
  from Cons.IH[OF rest fl1 srt1] obtain fl' ext where
    fl': "flows st' g = Some fl'" "forcedBreakOffsets fl' = forcedBreakOffsets fl1 @ ext"
    "sorted_wrt (<) (forcedBreakOffsets fl')" by blast
  from offs obtain ext1 where "forcedBreakOffsets fl1 = forcedBreakOffsets fl @ ext1"
    by (cases "g = name \<and> isForcedBreakValue bv
                   \<and> (forcedBreakOffsets fl = [] \<or> last (forcedBreakOffsets fl) < off)") auto
  with fl' show ?case by auto
qed

lemma example_run:
  "\<exists>st2. register_all example_styler example_registrations = Inr st2
     \<and> flows st2 ''body'' = Some \<lparr>flow_name = ''body'', parentFlowName = None,
                              forcedBreakOffsets = [3, 7]\<rparr>"
  by (simp add: example_styler_def example_registrations_def registerForcedBreakOffset_def
        break_defs Let_def)

text \<open>
  What holds of every call: a call of \<open>registerForcedBreakOffset\<close> that returns leaves
  every registered flow registered, and changes the \<open>forcedBreakOffsets\<close> of a flow only
  by appending its offset to the list of the flow it names, which it does exactly when
  \<open>isForcedBreakValue\<close> accepts the break value and the list is empty or ends below the
  offset. The call returns whenever the named flow is registered. Over any sequence of
  calls that returns, a list that was strictly increasing is extended at its end and is
  strictly increasing afterwards.
\<close>

lemma forcedBreakOffsets_growth:
  "(registerForcedBreakOffset breakValue off name st = Inr st' \<and> flows st g = Some fl \<longrightarrow>
      (\<exists>fl'. flows st' g = Some fl'
         \<and> forcedBreakOffsets fl' =
             (if g = name \<and> isForcedBreakValue breakValue
                 \<and> (forcedBreakOffsets fl = [] \<or> last (forcedBreakOffsets fl) < off)
              then forcedBreakOffsets fl @ [off] else forcedBreakOffsets fl)))
   \<and> (flows st name \<noteq> None \<longrightarrow>
        (\<exists>st1. registerForcedBreakOffset breakValue off name st = Inr st1))
   \<and> (register_all st rs = Inr st2 \<and> flows st g = Some fl
        \<and> sorted_wrt (<) (forcedBreakOffsets fl) \<longrightarrow>
        (\<exists>fl' ext. flows st2 g = Some fl'
           \<and> forcedBreakOffsets fl' = forcedBreakOffsets fl @ ext
           \<and> sorted_wrt (<) (forcedBreakOffsets fl')))"
  using registerForcedBreakOffset_flows[of breakValue off name st st' g fl]
    registerForcedBreakOffset_returns[of st name breakValue off]
    register_all_flows[of st rs st2 g fl]
  by blast

lemma forcedBreakOffsets_growth_example:
  "flows example_styler ''body''
     = Some \<lparr>flow_name = ''body'', parentFlowName = None, forcedBreakOffsets = []\<rparr>
   \<and> (\<exists>st2. register_all example_styler example_registrations = Inr st2
         \<and> (\<exists>fl' ext. flows st2 ''body'' = Some fl'
               \<and> forcedBreakOffsets fl' =
                   forcedBreakOffsets
                     \<lparr>flow_name = ''body'', parentFlowName = None, forcedBreakOffsets = []\<rparr>
                   @ ext
               \<and> sorted_wrt (<) (forcedBreakOffsets fl')))"
proof -
  let ?fl = "\<lparr>flow_name = ''body'', parentFlowName = None, forcedBreakOffsets = []\<rparr>"
  obtain st2 where run: "register_all example_styler example_registrations = Inr st2"
    using example_run by (elim exE conjE) (rule that)
  have fl: "flows example_styler ''body'' = Some ?fl" by (simp add: example_styler_def)
  have srt: "sorted_wrt (<) (forcedBreakOffsets ?fl)" by simp
  note t = forcedBreakOffsets_growth[of None 0 "''body''" example_styler example_styler
      "''body''" ?fl example_registrations st2, THEN conjunct2, THEN conjunct2, THEN mp]
  have ex: "\<exists>fl' ext. flows st2 ''body'' = Some fl'
               \<and> forcedBreakOffsets fl' = forcedBreakOffsets ?fl @ ext
               \<and> sorted_wrt (<) (forcedBreakOffsets fl')"
    by (rule t[OF conjI[OF run conjI[OF fl srt]]])
  show ?thesis
    apply (rule conjI)
     apply (rule fl)
    apply (rule exI[of _ st2])
    apply (rule conjI[OF run ex])
    done
qed


end
